theory Spec2Isabelle
  imports Main
begin

section \<open>WikiBacon: the console game and the path finder behind it\<close>

text \<open>
  The repository holds the console game \<^verbatim>\<open>main.py\<close> and a test fixture
  \<^verbatim>\<open>conftest.py\<close>. The game imports three operations from a module \<^verbatim>\<open>wiki\<close>
  (\<^verbatim>\<open>get_page\<close>, \<^verbatim>\<open>find_short_path\<close>, \<^verbatim>\<open>set_hard_mode\<close>) whose code is not part
  of the sources. The game loop is embedded from \<^verbatim>\<open>main.py\<close> with the first two
  operations as parameters; the path finder itself is modelled from the specification
  further below.
\<close>

subsection \<open>Pages\<close>

text \<open>
  A page as the game and the fixture see it: the game reads \<^verbatim>\<open>title\<close> and \<^verbatim>\<open>summary\<close>,
  the fixture also sets \<^verbatim>\<open>links\<close> and \<^verbatim>\<open>categories\<close>; the specification adds the
  identifier (the canonical title). An element of a \<open>string\<close> stands for one character of
  a Python \<^verbatim>\<open>str\<close>.
\<close>

type_synonym title = string

record page =
  "identifier" :: title
  title :: title
  summary :: string
  links :: "title list"
  categories :: "title list"

subsection \<open>Console, random numbers and the trace of calls\<close>

text \<open>
  Each \<^verbatim>\<open>print\<close> of \<^verbatim>\<open>main.py\<close> is one message; the constructor's arguments are
  the values interpolated into the f-string.
  \<^item> \<open>Starting_page t\<close>: \<^verbatim>\<open>f"The starting page is: {t}\n"\<close>
  \<^item> \<open>Computers_page t\<close>: \<^verbatim>\<open>f"The computer's page is: {t}\n"\<close>
  \<^item> \<open>Your_page t\<close>: \<^verbatim>\<open>f"Your page is: {t}\n"\<close>
  \<^item> \<open>Summary_line s\<close>: \<^verbatim>\<open>f"Summary: {s}...\n"\<close>
  \<^item> \<open>Could_not_find n\<close>: \<^verbatim>\<open>f"Could not find page '{n}'. Please try another page.\n"\<close>
  \<^item> \<open>Path_line p\<close>: \<^verbatim>\<open>"\n -> ".join(p)\<close>
  \<^item> \<open>Length_line n\<close>: \<^verbatim>\<open>f"Length: {n}\n"\<close>
  \<^item> \<open>Infinite_line\<close>: \<^verbatim>\<open>"Length: (Infinite)\n"\<close> with the infinity sign
  The other constructors are the fixed texts, in the order of the source.
\<close>

datatype msg =
    Welcome | Rules | Modes_header | Mode_normal_line | Mode_hard_line
  | Choose_mode_prompt | Hard_activated | Normal_selected | Ready
  | Starting_page string | Summary_line string | Computers_page string
  | Ask_user_page | Could_not_find string | Your_page string
  | Calculating
  | Computers_path | Path_line "title list" | Length_line nat | No_path | Infinite_line
  | Your_path
  | I_win | You_win | Tie
  | Play_again | Thanks | Disclaimer

text \<open>
  What the program does to the outside, in the order it does it: printing, reading a
  line, drawing a word, and the calls into the \<^verbatim>\<open>wiki\<close> module with their results.
\<close>

datatype event =
    Print msg
  | Input string
  | Open_dictionary
  | Choice string
  | Set_hard_mode bool
  | Get_page string "page option"
  | Find_short_path page page "title list option"

datatype exn =
    EOFError | KeyboardInterrupt | UnicodeDecodeError | RuntimeError
  | IndexError | FileNotFoundError | AttributeError

text \<open>
  What one call of \<^verbatim>\<open>input()\<close> meets on standard input: a line, or one of the ways
  the call fails while the input has not ended (the user interrupts the program, the
  bytes are not text in the encoding of the console, \<^verbatim>\<open>sys.stdin\<close> is gone).
\<close>

datatype read = Line string | Interrupt | Undecodable | Lost

text \<open>
  The state the program runs in: what the coming calls of \<^verbatim>\<open>input()\<close> will meet on
  standard input, the number of draws made from the random generator, the edge policy
  flag of the \<^verbatim>\<open>wiki\<close> module, and the trace of events so far.
\<close>

record world =
  stdin :: "read list"
  draws :: nat
  hard_mode :: bool
  trace :: "event list"

text \<open>
  What the program is given: the two imported operations, the lines of
  \<^verbatim>\<open>dictionary.txt\<close> (\<open>None\<close> when the file cannot be opened) and the random generator,
  as the sequence of numbers it will produce. \<open>wiki_get_page\<close> returns \<open>None\<close> for
  NotFound; \<open>wiki_find_short_path\<close> returns \<open>None\<close> for NotConnected and reads the edge
  policy flag.
\<close>

record env =
  wiki_get_page :: "string \<Rightarrow> page option"
  wiki_find_short_path :: "bool \<Rightarrow> page \<Rightarrow> page \<Rightarrow> title list option"
  dictionary :: "string list option"
  rng :: "nat \<Rightarrow> nat"

definition emit :: "event \<Rightarrow> world \<Rightarrow> world" where
  "emit e w = w\<lparr>trace := trace w @ [e]\<rparr>"

definition print :: "msg \<Rightarrow> world \<Rightarrow> world" where
  "print m w = emit (Print m) w"

text \<open>
  \<^verbatim>\<open>input()\<close> returns the next line. It raises \<^verbatim>\<open>EOFError\<close> when standard input has
  ended, \<^verbatim>\<open>KeyboardInterrupt\<close> when the user interrupts, \<^verbatim>\<open>UnicodeDecodeError\<close> when
  the line cannot be decoded and \<^verbatim>\<open>RuntimeError\<close> when \<^verbatim>\<open>sys.stdin\<close> is lost.
  \<^verbatim>\<open>main.py\<close> catches none of them.
\<close>

fun input_read :: "read \<Rightarrow> exn + string" where
  "input_read (Line l) = Inr l"
| "input_read Interrupt = Inl KeyboardInterrupt"
| "input_read Undecodable = Inl UnicodeDecodeError"
| "input_read Lost = Inl RuntimeError"

definition input :: "world \<Rightarrow> (exn + string) \<times> world" where
  "input w =
     (case stdin w of
        [] \<Rightarrow> (Inl EOFError, w)
      | r # rs \<Rightarrow>
          (case input_read r of
             Inl e \<Rightarrow> (Inl e, w)
           | Inr l \<Rightarrow> (Inr l, emit (Input l) (w\<lparr>stdin := rs\<rparr>))))"

text \<open>\<^verbatim>\<open>random.choice\<close> raises \<^verbatim>\<open>IndexError\<close> on an empty sequence.\<close>

definition random_choice :: "env \<Rightarrow> string list \<Rightarrow> world \<Rightarrow> (exn + string) \<times> world" where
  "random_choice env xs w =
     (if xs = [] then (Inl IndexError, w)
      else let x = xs ! (rng env (draws w) mod length xs)
           in (Inr x, emit (Choice x) (w\<lparr>draws := Suc (draws w)\<rparr>)))"

definition open_dictionary :: "env \<Rightarrow> world \<Rightarrow> (exn + string list) \<times> world" where
  "open_dictionary env w =
     (case dictionary env of
        None \<Rightarrow> (Inl FileNotFoundError, w)
      | Some ls \<Rightarrow> (Inr ls, emit Open_dictionary w))"

text \<open>
  Modelled from the spec: \<^verbatim>\<open>set_hard_mode\<close> of the missing \<^verbatim>\<open>wiki\<close> module, a
  process-wide boolean that the path finder reads.
\<close>

definition set_hard_mode :: "bool \<Rightarrow> world \<Rightarrow> world" where
  "set_hard_mode b w = emit (Set_hard_mode b) (w\<lparr>hard_mode := b\<rparr>)"

text \<open>\<^verbatim>\<open>str.strip()\<close>: whitespace is removed at both ends.\<close>

definition isspace :: "char \<Rightarrow> bool" where
  "isspace c =
     (let n = (of_char c :: nat)
      in (9 \<le> n \<and> n \<le> 13) \<or> (28 \<le> n \<and> n \<le> 32) \<or> n = 133 \<or> n = 160)"

definition strip :: "string \<Rightarrow> string" where
  "strip s = rev (dropWhile isspace (rev (dropWhile isspace s)))"

subsection \<open>Truth values of Python objects\<close>

text \<open>
  \<^verbatim>\<open>while not start_page\<close> and \<^verbatim>\<open>if computer_path\<close> test the truth value of the
  object: \<^verbatim>\<open>None\<close> is false, a page object is true, a list is true when it is not
  empty.
\<close>

definition truthy_page :: "page option \<Rightarrow> bool" where
  "truthy_page pg = (pg \<noteq> None)"

definition truthy_path :: "title list option \<Rightarrow> bool" where
  "truthy_path path = (case path of None \<Rightarrow> False | Some p \<Rightarrow> p \<noteq> [])"

subsection \<open>The retry loops\<close>

text \<open>
  Lines 36--39 and 45--48 of \<^verbatim>\<open>main.py\<close>, the same loop for the start page and for
  the computer's page:
  \<^verbatim>\<open>
  start_page = None
  while not start_page:
      start_word = random.choice(common_words)
      start_page = get_page(start_word)
  \<close>
  The loop has no bound of its own: it runs for as long as the drawn words do not
  resolve, so it is a partial function, \<open>None\<close> standing for a loop that never ends.
  The third argument is the loop variable.
\<close>

partial_function (option) random_page_loop ::
  "env \<Rightarrow> string list \<Rightarrow> page option \<Rightarrow> world \<Rightarrow> ((exn + page option) \<times> world) option" where
  "random_page_loop env common_words pg w =
     (if truthy_page pg then Some (Inr pg, w)
      else case random_choice env common_words w of
             (Inl e, w1) \<Rightarrow> Some (Inl e, w1)
           | (Inr word, w1) \<Rightarrow>
               random_page_loop env common_words (wiki_get_page env word)
                 (emit (Get_page word (wiki_get_page env word)) w1))"

declare random_page_loop.simps [code]

text \<open>
  Lines 54--59, the loop for the user's page; each turn reads one line:
  \<^verbatim>\<open>
  user_page = None
  while not user_page:
      print("What would you like your page to be?")
      user_page_name = input()
      user_page = get_page(user_page_name)
      if not user_page:
          print(f"Could not find page '{user_page_name}'. Please try another page.\n")
  \<close>
\<close>

partial_function (option) user_page_loop ::
  "env \<Rightarrow> page option \<Rightarrow> world \<Rightarrow> ((exn + page option) \<times> world) option" where
  "user_page_loop env pg w =
     (if truthy_page pg then Some (Inr pg, w)
      else case input (print Ask_user_page w) of
             (Inl e, w1) \<Rightarrow> Some (Inl e, w1)
           | (Inr user_page_name, w1) \<Rightarrow>
               let user_page = wiki_get_page env user_page_name;
                   w2 = emit (Get_page user_page_name user_page) w1;
                   w3 = (if \<not> truthy_page user_page
                         then print (Could_not_find user_page_name) w2 else w2)
               in user_page_loop env user_page w3)"

declare user_page_loop.simps [code]

subsection \<open>One round\<close>

text \<open>
  Reading \<^verbatim>\<open>.title\<close> and \<^verbatim>\<open>.summary\<close> of the loop variable and printing them
  (lines 41--42, 50--51, 61--62). On \<^verbatim>\<open>None\<close> the attribute access would raise
  \<^verbatim>\<open>AttributeError\<close>. The summary is cut by the slice \<^verbatim>\<open>[:500]\<close>.
\<close>

definition show_page :: "(string \<Rightarrow> msg) \<Rightarrow> page option \<Rightarrow> world \<Rightarrow> (exn + page) \<times> world" where
  "show_page label pg w =
     (case pg of
        None \<Rightarrow> (Inl AttributeError, w)
      | Some p \<Rightarrow>
          (Inr p, print (Summary_line (take 500 (summary p))) (print (label (title p)) w)))"

text \<open>
  Lines 67--76 and 79--86: the path is printed and scored.
  \<^verbatim>\<open>
  if computer_path:
      print(f"\n -> ".join(computer_path))
      print(f"Length: {len(computer_path)}\n")
      computer_score = len(computer_path)
  else:
      print("No path found (or search timed out).")
      print("Length: (Infinite)\n")
      computer_score = 100 # Max score for unconnected/hard-to-reach pages
  \<close>
\<close>

definition report_path :: "msg \<Rightarrow> title list option \<Rightarrow> world \<Rightarrow> nat \<times> world" where
  "report_path header path w =
     (let w1 = print header w
      in if truthy_path path
         then (case path of
                 Some p \<Rightarrow> (length p, print (Length_line (length p)) (print (Path_line p) w1))
               | None \<Rightarrow> (100, print Infinite_line (print No_path w1)))
         else (100, print Infinite_line (print No_path w1)))"

definition announce :: "nat \<Rightarrow> nat \<Rightarrow> world \<Rightarrow> world" where
  "announce computer_score user_score w =
     (if computer_score > user_score then print I_win w
      else if computer_score < user_score then print You_win w
      else print Tie w)"

text \<open>The local variables of one round, as they stand when the winner is announced.\<close>

record round =
  start_page :: page
  computer_page :: page
  user_page :: page
  computer_path :: "title list option"
  user_path :: "title list option"
  computer_score :: nat
  user_score :: nat

text \<open>The body of \<^verbatim>\<open>while True\<close> up to the announcement, lines 34--93.\<close>

definition play_round :: "env \<Rightarrow> string list \<Rightarrow> world \<Rightarrow> ((exn + round) \<times> world) option" where
  "play_round env common_words w =
     (case random_page_loop env common_words None w of
        None \<Rightarrow> None
      | Some (Inl e, w1) \<Rightarrow> Some (Inl e, w1)
      | Some (Inr sp, w1) \<Rightarrow>
     (case show_page Starting_page sp w1 of
        (Inl e, w2) \<Rightarrow> Some (Inl e, w2)
      | (Inr start_page', w2) \<Rightarrow>
     (case random_page_loop env common_words None w2 of
        None \<Rightarrow> None
      | Some (Inl e, w3) \<Rightarrow> Some (Inl e, w3)
      | Some (Inr cp, w3) \<Rightarrow>
     (case show_page Computers_page cp w3 of
        (Inl e, w4) \<Rightarrow> Some (Inl e, w4)
      | (Inr computer_page', w4) \<Rightarrow>
     (case user_page_loop env None w4 of
        None \<Rightarrow> None
      | Some (Inl e, w5) \<Rightarrow> Some (Inl e, w5)
      | Some (Inr up, w5) \<Rightarrow>
     (case show_page Your_page up w5 of
        (Inl e, w6) \<Rightarrow> Some (Inl e, w6)
      | (Inr user_page', w6) \<Rightarrow>
          let w7 = print Calculating w6;
              computer_path' = wiki_find_short_path env (hard_mode w7) start_page' computer_page';
              w8 = emit (Find_short_path start_page' computer_page' computer_path') w7;
              (computer_score', w9) = report_path Computers_path computer_path' w8;
              user_path' = wiki_find_short_path env (hard_mode w9) start_page' user_page';
              w10 = emit (Find_short_path start_page' user_page' user_path') w9;
              (user_score', w11) = report_path Your_path user_path' w10;
              w12 = announce computer_score' user_score' w11
          in Some (Inr \<lparr>start_page = start_page', computer_page = computer_page',
                         user_page = user_page', computer_path = computer_path',
                         user_path = user_path', computer_score = computer_score',
                         user_score = user_score'\<rparr>, w12)))))))"

subsection \<open>The game\<close>

text \<open>
  \<^verbatim>\<open>while True\<close>, lines 33--101: a round, then the question whether to play again.
\<close>

partial_function (option) game_loop ::
  "env \<Rightarrow> string list \<Rightarrow> world \<Rightarrow> ((exn + unit) \<times> world) option" where
  "game_loop env common_words w =
     (case play_round env common_words w of
        None \<Rightarrow> None
      | Some (Inl e, w1) \<Rightarrow> Some (Inl e, w1)
      | Some (Inr r, w1) \<Rightarrow>
          (case input (print Play_again w1) of
             (Inl e, w2) \<Rightarrow> Some (Inl e, w2)
           | (Inr cmd, w2) \<Rightarrow>
               if cmd = ''q'' then Some (Inr (), print Disclaimer (print Thanks w2))
               else game_loop env common_words w2))"

declare game_loop.simps [code]

text \<open>\<^verbatim>\<open>main()\<close>, lines 8--101.\<close>

definition main :: "env \<Rightarrow> world \<Rightarrow> ((exn + unit) \<times> world) option" where
  "main env w0 =
     (let w1 = print Mode_hard_line (print Mode_normal_line (print Modes_header
                 (print Rules (print Welcome w0))))
      in case input (print Choose_mode_prompt w1) of
           (Inl e, w2) \<Rightarrow> Some (Inl e, w2)
         | (Inr line, w2) \<Rightarrow>
             let mode = strip line;
                 w3 = (if mode = ''2''
                       then print Hard_activated (set_hard_mode True w2)
                       else print Normal_selected (set_hard_mode False w2))
             in (case input (print Ready w3) of
                   (Inl e, w4) \<Rightarrow> Some (Inl e, w4)
                 | (Inr cmd, w4) \<Rightarrow>
                     if cmd = ''q'' then Some (Inr (), w4)
                     else (case open_dictionary env w4 of
                             (Inl e, w5) \<Rightarrow> Some (Inl e, w5)
                           | (Inr common_words, w5) \<Rightarrow> game_loop env common_words w5)))"

subsection \<open>Reading the trace\<close>

text \<open>
  The events a retry loop can add to the trace: draws, lines read, calls of
  \<^verbatim>\<open>get_page\<close> and the two messages of the loop for the user's page.
\<close>

fun loop_event :: "event \<Rightarrow> bool" where
  "loop_event (Choice _) = True"
| "loop_event (Get_page _ _) = True"
| "loop_event (Input _) = True"
| "loop_event (Print Ask_user_page) = True"
| "loop_event (Print (Could_not_find _)) = True"
| "loop_event _ = False"

fun is_search :: "event \<Rightarrow> bool" where
  "is_search (Find_short_path _ _ _) = True"
| "is_search _ = False"

fun is_set_hard_mode :: "event \<Rightarrow> bool" where
  "is_set_hard_mode (Set_hard_mode _) = True"
| "is_set_hard_mode _ = False"

fun is_get_page :: "event \<Rightarrow> bool" where
  "is_get_page (Get_page _ _) = True"
| "is_get_page _ = False"

fun shown_summary :: "event \<Rightarrow> string option" where
  "shown_summary (Print (Summary_line s)) = Some s"
| "shown_summary _ = None"

fun shown_title :: "event \<Rightarrow> string option" where
  "shown_title (Print (Starting_page t)) = Some t"
| "shown_title (Print (Computers_page t)) = Some t"
| "shown_title (Print (Your_page t)) = Some t"
| "shown_title _ = None"

fun got_page :: "event \<Rightarrow> page option" where
  "got_page (Get_page _ r) = r"
| "got_page _ = None"

definition searches :: "event list \<Rightarrow> event list" where
  "searches evs = filter is_search evs"

definition summaries_shown :: "event list \<Rightarrow> string list" where
  "summaries_shown evs = List.map_filter shown_summary evs"

definition titles_shown :: "event list \<Rightarrow> string list" where
  "titles_shown evs = List.map_filter shown_title evs"

text \<open>The pages that the calls of \<^verbatim>\<open>get_page\<close> in a trace returned, in order.\<close>

definition resolved :: "event list \<Rightarrow> page list" where
  "resolved evs = List.map_filter got_page evs"

text \<open>
  A trace displays what it resolved: the titles and the summaries printed are, in
  order, the titles and the first 500 characters of the summaries of the pages that
  \<^verbatim>\<open>get_page\<close> returned.
\<close>

definition shown_as_resolved :: "event list \<Rightarrow> bool" where
  "shown_as_resolved evs =
     (titles_shown evs = map title (resolved evs)
      \<and> summaries_shown evs = map (\<lambda>p. take 500 (summary p)) (resolved evs))"

text \<open>Every call of \<^verbatim>\<open>get_page\<close> in the trace is recorded with the result it had.\<close>

definition answered_by :: "env \<Rightarrow> event list \<Rightarrow> bool" where
  "answered_by env evs =
     list_all (\<lambda>e. case e of Get_page n r \<Rightarrow> r = wiki_get_page env n | _ \<Rightarrow> True) evs"

text \<open>
  A stretch of a trace is orderly when it holds no call of \<^verbatim>\<open>set_hard_mode\<close>, displays
  what it resolved, and records the calls of \<^verbatim>\<open>get_page\<close> with their results.
\<close>

definition orderly :: "env \<Rightarrow> event list \<Rightarrow> bool" where
  "orderly env evs =
     (filter is_set_hard_mode evs = [] \<and> shown_as_resolved evs \<and> answered_by env evs)"

text \<open>The events a run has added to the trace, between the worlds \<open>w\<close> and \<open>w'\<close>.\<close>

definition new_events :: "world \<Rightarrow> world \<Rightarrow> event list" where
  "new_events w w' = drop (length (trace w)) (trace w')"

text \<open>The score and the lines printed for a path, and the announcement, as values.\<close>

definition path_score :: "title list option \<Rightarrow> nat" where
  "path_score path = (case path of None \<Rightarrow> 100 | Some p \<Rightarrow> if p = [] then 100 else length p)"

definition report_events :: "msg \<Rightarrow> title list option \<Rightarrow> event list" where
  "report_events header path =
     Print header #
     (case path of
        None \<Rightarrow> [Print No_path, Print Infinite_line]
      | Some p \<Rightarrow> if p = [] then [Print No_path, Print Infinite_line]
                  else [Print (Path_line p), Print (Length_line (length p))])"

definition verdict :: "nat \<Rightarrow> nat \<Rightarrow> msg" where
  "verdict c u = (if c > u then I_win else if c < u then You_win else Tie)"

definition page_events :: "(string \<Rightarrow> msg) \<Rightarrow> page \<Rightarrow> event list" where
  "page_events label p = [Print (label (title p)), Print (Summary_line (take 500 (summary p)))]"

text \<open>
  The events of a round that ran to its end, given what the three retry loops added.
\<close>

definition round_events :: "round \<Rightarrow> event list \<Rightarrow> event list \<Rightarrow> event list \<Rightarrow> event list" where
  "round_events r evs1 evs2 evs3 =
     evs1 @ page_events Starting_page (start_page r) @
     evs2 @ page_events Computers_page (computer_page r) @
     evs3 @ page_events Your_page (user_page r) @
     [Print Calculating,
      Find_short_path (start_page r) (computer_page r) (computer_path r)] @
     report_events Computers_path (computer_path r) @
     [Find_short_path (start_page r) (user_page r) (user_path r)] @
     report_events Your_path (user_path r) @
     [Print (verdict (computer_score r) (user_score r))]"

text \<open>What \<^verbatim>\<open>main\<close> prints before it reads the mode, lines 9--14.\<close>

definition greeting :: "event list" where
  "greeting =
     [Print Welcome, Print Rules, Print Modes_header, Print Mode_normal_line,
      Print Mode_hard_line, Print Choose_mode_prompt]"

text \<open>
  In the calls of \<^verbatim>\<open>get_page\<close> of a trace, taken in order: every call that follows a
  failed one asks for another name than the failed one.
\<close>

fun retries_differ :: "event list \<Rightarrow> bool" where
  "retries_differ (Get_page n None # Get_page m r # es) =
     (n \<noteq> m \<and> retries_differ (Get_page m r # es))"
| "retries_differ (e # es) = retries_differ es"
| "retries_differ [] = True"

subsection \<open>How far a run has come\<close>

text \<open>
  A run of \<^verbatim>\<open>main\<close> need not end: a loop over the dictionary goes on for as long as the
  words drawn do not resolve. To say what such a run has done, the three functions below
  give the worlds it passes through on its way to the loops over the dictionary.

  What \<^verbatim>\<open>main\<close> has done when it reaches \<^verbatim>\<open>while True\<close>, lines 9--31: the result is the
  exception that ended the run before, \<open>None\<close> when the user has quit, or the words of
  the dictionary.
\<close>

definition prelude :: "env \<Rightarrow> world \<Rightarrow> (exn + string list option) \<times> world" where
  "prelude env w0 =
     (let w1 = print Mode_hard_line (print Mode_normal_line (print Modes_header
                 (print Rules (print Welcome w0))))
      in case input (print Choose_mode_prompt w1) of
           (Inl e, w2) \<Rightarrow> (Inl e, w2)
         | (Inr line, w2) \<Rightarrow>
             let mode = strip line;
                 w3 = (if mode = ''2''
                       then print Hard_activated (set_hard_mode True w2)
                       else print Normal_selected (set_hard_mode False w2))
             in (case input (print Ready w3) of
                   (Inl e, w4) \<Rightarrow> (Inl e, w4)
                 | (Inr cmd, w4) \<Rightarrow>
                     if cmd = ''q'' then (Inr None, w4)
                     else (case open_dictionary env w4 of
                             (Inl e, w5) \<Rightarrow> (Inl e, w5)
                           | (Inr common_words, w5) \<Rightarrow> (Inr (Some common_words), w5))))"

text \<open>
  The world in which the game loop, started in \<open>w\<close>, begins its round number \<open>n + 1\<close>:
  the \<open>n\<close> rounds before have run to their end and the user has asked for another round
  each time. \<open>None\<close> when the game does not get there.
\<close>

fun after_rounds :: "env \<Rightarrow> string list \<Rightarrow> nat \<Rightarrow> world \<Rightarrow> world option" where
  "after_rounds env common_words 0 w = Some w"
| "after_rounds env common_words (Suc n) w =
     (case play_round env common_words w of
        Some (Inr r, w1) \<Rightarrow>
          (case input (print Play_again w1) of
             (Inr cmd, w2) \<Rightarrow>
               if cmd = ''q'' then None else after_rounds env common_words n w2
           | (Inl e, w2) \<Rightarrow> None)
      | _ \<Rightarrow> None)"

text \<open>
  The worlds in which a round started in \<open>w\<close> enters its loops over the dictionary: the
  loop for the start page at once, the loop for the computer's page when the start page
  has been found and displayed.
\<close>

definition loop_entries :: "env \<Rightarrow> string list \<Rightarrow> world \<Rightarrow> world list" where
  "loop_entries env common_words w =
     w # (case random_page_loop env common_words None w of
            Some (Inr sp, w1) \<Rightarrow>
              (case show_page Starting_page sp w1 of
                 (Inr p, w2) \<Rightarrow> [w2]
               | (Inl e, w2) \<Rightarrow> [])
          | _ \<Rightarrow> [])"

section \<open>The path finder\<close>

text \<open>
  Modelled from the spec: \<^verbatim>\<open>find_short_path\<close> and what it is built from. The module
  \<^verbatim>\<open>wiki\<close> is not part of the sources, so the definitions of this section follow the
  words of the specification (sections 3, 4.3 and 4.4) and nothing else.

  The page source, read through the page cache, is a function from a title to a page
  or to nothing (NotFound): the graph is a fixed snapshot. The edge policy is read once,
  when the search starts, and is a parameter. The effort cap is the largest number of
  titles the search may expand; elapsed time is not modelled.
\<close>

type_synonym source = "title \<Rightarrow> page option"

text \<open>
  Modelled from the spec: EdgeSet(Page, policy), the links and, under the normal policy
  only, the categories.
\<close>

definition edge_set :: "bool \<Rightarrow> page \<Rightarrow> title list" where
  "edge_set hard p = (if hard then links p else links p @ categories p)"

text \<open>
  Modelled from the spec: a title of the frontier is resolved; one that does not
  resolve is a dead end.
\<close>

definition expand :: "source \<Rightarrow> bool \<Rightarrow> title \<Rightarrow> title list" where
  "expand resolve hard t = (case resolve t of None \<Rightarrow> [] | Some p \<Rightarrow> edge_set hard p)"

text \<open>
  Modelled from the spec: SearchState, the visited titles, the title that first
  discovered each title, and the frontier of the next depth.
\<close>

record search_state =
  visited :: "title set"
  predecessor :: "title \<rightharpoonup> title"
  next_frontier :: "title list"

text \<open>
  Modelled from the spec: what a search returns, a sequence of titles or NotConnected.
\<close>

datatype outcome = Path "title list" | NotConnected

text \<open>
  Modelled from the spec: the edges of the page of \<open>u\<close>, one after the other. A title
  not yet visited is marked visited, gets \<open>u\<close> as predecessor and joins the next
  frontier; if it is the target, the scan stops at once and says so.
\<close>

fun discover :: "title \<Rightarrow> title \<Rightarrow> title list \<Rightarrow> search_state \<Rightarrow> bool \<times> search_state" where
  "discover target u [] s = (False, s)"
| "discover target u (v # vs) s =
     (if v \<in> visited s then discover target u vs s
      else let s' = s\<lparr>visited := insert v (visited s),
                       predecessor := (predecessor s)(v \<mapsto> u),
                       next_frontier := next_frontier s @ [v]\<rparr>
           in if v = target then (True, s') else discover target u vs s')"

text \<open>
  Modelled from the spec: the path is found by walking the predecessors from the
  target back to the start, and reversing. Nothing in the walk itself says that it
  ends: it is a partial function, \<open>None\<close> standing for a walk that does not end or
  meets a title without predecessor.
\<close>

partial_function (option) walk_back ::
  "(title \<rightharpoonup> title) \<Rightarrow> title \<Rightarrow> title \<Rightarrow> title list option" where
  "walk_back pred start t =
     (if t = start then Some [t]
      else case pred t of
             None \<Rightarrow> None
           | Some u \<Rightarrow> Option.bind (walk_back pred start u) (\<lambda>q. Some (t # q)))"

declare walk_back.simps [code]

definition reconstruct :: "(title \<rightharpoonup> title) \<Rightarrow> title \<Rightarrow> title \<Rightarrow> title list option" where
  "reconstruct pred start target = map_option rev (walk_back pred start target)"

text \<open>
  Modelled from the spec: breadth-first search, depth after depth. The titles of the
  current frontier are expanded in order; when the frontier is used up the next one
  takes its place, and the search ends with NotConnected when there is none. Before a
  title is expanded the effort cap is checked: with \<open>cap\<close> titles expanded the search
  ends with NotConnected. The result carries the number of titles expanded.
\<close>

function bfs ::
  "source \<Rightarrow> bool \<Rightarrow> nat \<Rightarrow> title \<Rightarrow> title \<Rightarrow> title list \<Rightarrow> search_state \<Rightarrow> nat
     \<Rightarrow> (outcome \<times> nat) option" where
  "bfs resolve hard cap start target frontier s expanded =
     (case frontier of
        [] \<Rightarrow>
          if next_frontier s = [] then Some (NotConnected, expanded)
          else bfs resolve hard cap start target (next_frontier s)
                 (s\<lparr>next_frontier := []\<rparr>) expanded
      | u # rest \<Rightarrow>
          if cap \<le> expanded then Some (NotConnected, expanded)
          else (case discover target u (expand resolve hard u) s of
                  (True, s') \<Rightarrow>
                    map_option (\<lambda>p. (Path p, Suc expanded))
                      (reconstruct (predecessor s') start target)
                | (False, s') \<Rightarrow>
                    bfs resolve hard cap start target rest s' (Suc expanded)))"
  by pat_completeness auto
termination
  by (relation "measures
        [\<lambda>(resolve, hard, cap, start, target, frontier, s, expanded). cap - expanded,
         \<lambda>(resolve, hard, cap, start, target, frontier, s, expanded).
            if frontier = [] then 1 else 0]")
     auto

declare bfs.simps [simp del]

text \<open>
  Modelled from the spec: the search from a start page to a target page, with the
  number of titles it expanded. Equal identifiers give the path of the one title.
\<close>

definition search ::
  "source \<Rightarrow> bool \<Rightarrow> nat \<Rightarrow> page \<Rightarrow> page \<Rightarrow> (outcome \<times> nat) option" where
  "search resolve hard cap start target =
     (if identifier start = identifier target then Some (Path [title start], 0)
      else bfs resolve hard cap (identifier start) (identifier target) [identifier start]
             \<lparr>visited = {identifier start}, predecessor = Map.empty, next_frontier = []\<rparr> 0)"

text \<open>
  Modelled from the spec: \<^verbatim>\<open>find_short_path\<close>, the result of the search without the
  count of expanded titles.
\<close>

definition find_short_path ::
  "source \<Rightarrow> bool \<Rightarrow> nat \<Rightarrow> page \<Rightarrow> page \<Rightarrow> outcome option" where
  "find_short_path resolve hard cap start target =
     map_option fst (search resolve hard cap start target)"

subsection \<open>The reference: levels of the graph\<close>

text \<open>
  The graph a search runs on, as a function from a title to its edges, and its levels:
  level \<open>n\<close> holds the titles that \<open>n\<close> hops from the start lead to. The reference search
  looks for the target level after level; the first level that holds it is the
  distance in hops.
\<close>

type_synonym graph = "title \<Rightarrow> title list"

primrec layer :: "graph \<Rightarrow> nat \<Rightarrow> title \<Rightarrow> title list" where
  "layer g 0 a = [a]"
| "layer g (Suc n) a = concat (map g (layer g n a))"

fun reference_bfs :: "graph \<Rightarrow> title \<Rightarrow> title \<Rightarrow> nat \<Rightarrow> nat \<Rightarrow> nat option" where
  "reference_bfs g a b k 0 = None"
| "reference_bfs g a b k (Suc fuel) =
     (if b \<in> set (layer g k a) then Some k else reference_bfs g a b (Suc k) fuel)"

definition within :: "graph \<Rightarrow> title \<Rightarrow> nat \<Rightarrow> title set" where
  "within g a d = (\<Union>k \<le> d. set (layer g k a))"

text \<open>A path of the graph, as the sequence of its titles.\<close>

fun is_path :: "graph \<Rightarrow> title list \<Rightarrow> bool" where
  "is_path g [] = False"
| "is_path g [v] = True"
| "is_path g (u # v # vs) = (v \<in> set (g u) \<and> is_path g (v # vs))"

definition connects :: "graph \<Rightarrow> title \<Rightarrow> title \<Rightarrow> title list \<Rightarrow> bool" where
  "connects g a b p = (is_path g p \<and> hd p = a \<and> last p = b)"

text \<open>The same read backwards, as the walk over the predecessors produces it.\<close>

fun back_path :: "graph \<Rightarrow> title list \<Rightarrow> bool" where
  "back_path g [] = False"
| "back_path g [v] = True"
| "back_path g (v # u # us) = (v \<in> set (g u) \<and> back_path g (u # us))"

subsection \<open>What holds while the search runs\<close>

text \<open>
  A visited title \<open>v\<close> of depth \<open>k\<close>: the walk back from it ends, over visited titles
  only, and gives a path of \<open>k\<close> hops from the start.
\<close>

definition trail :: "graph \<Rightarrow> title \<Rightarrow> search_state \<Rightarrow> nat \<Rightarrow> title \<Rightarrow> bool" where
  "trail g a s k v =
     (\<exists>q. walk_back (predecessor s) a v = Some q \<and> length q = Suc k \<and> back_path g q
          \<and> hd q = v \<and> last q = a \<and> set q \<subseteq> visited s)"

text \<open>
  The invariant of the search at depth \<open>d\<close>, with \<open>todo\<close> the part of the frontier still
  to expand: the target is not visited; every title within \<open>d\<close> hops is visited; the
  next frontier holds none of them; a visited title that waits in neither frontier has
  all its edges visited; the titles of the frontier have depth \<open>d\<close>, those of the next
  frontier depth \<open>d + 1\<close>.
\<close>

definition bfs_inv ::
  "graph \<Rightarrow> title \<Rightarrow> title \<Rightarrow> nat \<Rightarrow> title list \<Rightarrow> search_state \<Rightarrow> bool" where
  "bfs_inv g a b d todo s =
     (a \<noteq> b \<and> b \<notin> visited s
      \<and> within g a d \<subseteq> visited s
      \<and> set (next_frontier s) \<inter> within g a d = {}
      \<and> (\<forall>u \<in> visited s. u \<notin> set todo \<longrightarrow> u \<notin> set (next_frontier s)
            \<longrightarrow> set (g u) \<subseteq> visited s)
      \<and> (\<forall>v \<in> set todo. trail g a s d v)
      \<and> (\<forall>v \<in> set (next_frontier s). trail g a s (Suc d) v))"

text \<open>A shortest path: a path from \<open>a\<close> to \<open>b\<close>, and no level before its last holds \<open>b\<close>.\<close>

definition shortest :: "graph \<Rightarrow> title \<Rightarrow> title \<Rightarrow> title list \<Rightarrow> bool" where
  "shortest g a b p =
     (connects g a b p \<and> b \<in> set (layer g (length p - 1) a)
      \<and> (\<forall>k < length p - 1. b \<notin> set (layer g k a)))"

subsection \<open>A small world to run the game in\<close>

text \<open>
  Three words in the dictionary, of which \<open>Nowhere\<close> does not resolve; every other name
  resolves to a page of that title. No path leads to \<open>Bacon\<close>; any other page is one
  link away. The generator draws the words in turn.
\<close>

definition demo_page :: "string \<Rightarrow> page" where
  "demo_page t =
     \<lparr>identifier = t, title = t, summary = ''About '' @ t, links = [], categories = []\<rparr>"

definition demo_env :: env where
  "demo_env =
     \<lparr>wiki_get_page = (\<lambda>n. if n = ''Nowhere'' then None else Some (demo_page n)),
      wiki_find_short_path =
        (\<lambda>hard a b. if title b = ''Bacon'' then None else Some [title a, title b]),
      dictionary = Some [''Nowhere'', ''Egg'', ''Bacon''],
      rng = (\<lambda>k. k)\<rparr>"

definition demo_words :: "string list" where
  "demo_words = [''Nowhere'', ''Egg'', ''Bacon'']"

definition demo_world :: world where
  "demo_world =
     \<lparr>stdin = [Line ''Nowhere'', Line ''Toast''], draws = 0, hard_mode = False, trace = []\<rparr>"

definition demo_round :: round where
  "demo_round =
     \<lparr>start_page = demo_page ''Egg'', computer_page = demo_page ''Bacon'',
      user_page = demo_page ''Toast'', computer_path = None,
      user_path = Some [''Egg'', ''Toast''], computer_score = 100, user_score = 2\<rparr>"

definition demo_world_after :: world where
  "demo_world_after =
     \<lparr>stdin = [], draws = 3, hard_mode = False,
      trace =
        [Choice ''Nowhere'', Get_page ''Nowhere'' None,
         Choice ''Egg'', Get_page ''Egg'' (Some (demo_page ''Egg'')),
         Print (Starting_page ''Egg''), Print (Summary_line ''About Egg''),
         Choice ''Bacon'', Get_page ''Bacon'' (Some (demo_page ''Bacon'')),
         Print (Computers_page ''Bacon''), Print (Summary_line ''About Bacon''),
         Print Ask_user_page, Input ''Nowhere'', Get_page ''Nowhere'' None,
         Print (Could_not_find ''Nowhere''),
         Print Ask_user_page, Input ''Toast'', Get_page ''Toast'' (Some (demo_page ''Toast'')),
         Print (Your_page ''Toast''), Print (Summary_line ''About Toast''),
         Print Calculating,
         Find_short_path (demo_page ''Egg'') (demo_page ''Bacon'') None,
         Print Computers_path, Print No_path, Print Infinite_line,
         Find_short_path (demo_page ''Egg'') (demo_page ''Toast'') (Some [''Egg'', ''Toast'']),
         Print Your_path, Print (Path_line [''Egg'', ''Toast'']), Print (Length_line 2),
         Print I_win]\<rparr>"

text \<open>The same world with a generator that draws every word twice.\<close>

definition demo_env_repeat :: env where
  "demo_env_repeat = demo_env\<lparr>rng := (\<lambda>k. k div 2)\<rparr>"

definition demo_world_repeat :: world where
  "demo_world_repeat =
     \<lparr>stdin = [], draws = 3, hard_mode = False,
      trace =
        [Choice ''Nowhere'', Get_page ''Nowhere'' None,
         Choice ''Nowhere'', Get_page ''Nowhere'' None,
         Choice ''Egg'', Get_page ''Egg'' (Some (demo_page ''Egg''))]\<rparr>"

text \<open>A whole game of two rounds in hard mode.\<close>

definition demo_game_world :: world where
  "demo_game_world =
     \<lparr>stdin = [Line '' 2 '', Line '''', Line ''Toast'', Line '''', Line ''Toast'', Line ''q''], draws = 0,
      hard_mode = False, trace = []\<rparr>"

definition demo_game_round :: "event list" where
  "demo_game_round =
     [Choice ''Nowhere'', Get_page ''Nowhere'' None,
      Choice ''Egg'', Get_page ''Egg'' (Some (demo_page ''Egg'')),
      Print (Starting_page ''Egg''), Print (Summary_line ''About Egg''),
      Choice ''Bacon'', Get_page ''Bacon'' (Some (demo_page ''Bacon'')),
      Print (Computers_page ''Bacon''), Print (Summary_line ''About Bacon''),
      Print Ask_user_page, Input ''Toast'', Get_page ''Toast'' (Some (demo_page ''Toast'')),
      Print (Your_page ''Toast''), Print (Summary_line ''About Toast''),
      Print Calculating,
      Find_short_path (demo_page ''Egg'') (demo_page ''Bacon'') None,
      Print Computers_path, Print No_path, Print Infinite_line,
      Find_short_path (demo_page ''Egg'') (demo_page ''Toast'') (Some [''Egg'', ''Toast'']),
      Print Your_path, Print (Path_line [''Egg'', ''Toast'']), Print (Length_line 2),
      Print I_win]"

definition demo_game_world_after :: world where
  "demo_game_world_after =
     \<lparr>stdin = [], draws = 6, hard_mode = True,
      trace =
        [Print Welcome, Print Rules, Print Modes_header, Print Mode_normal_line,
         Print Mode_hard_line, Print Choose_mode_prompt, Input '' 2 '', Set_hard_mode True,
         Print Hard_activated, Print Ready, Input [], Open_dictionary]
        @ demo_game_round @ [Print Play_again, Input []]
        @ demo_game_round @ [Print Play_again, Input ''q'', Print Thanks, Print Disclaimer]\<rparr>"

text \<open>Worlds in which standard input ends early.\<close>

definition demo_world_short :: world where
  "demo_world_short = \<lparr>stdin = [Line ''Nowhere''], draws = 0, hard_mode = False, trace = []\<rparr>"

definition demo_world_short_after :: world where
  "demo_world_short_after =
     \<lparr>stdin = [], draws = 3, hard_mode = False,
      trace =
        [Choice ''Nowhere'', Get_page ''Nowhere'' None,
         Choice ''Egg'', Get_page ''Egg'' (Some (demo_page ''Egg'')),
         Print (Starting_page ''Egg''), Print (Summary_line ''About Egg''),
         Choice ''Bacon'', Get_page ''Bacon'' (Some (demo_page ''Bacon'')),
         Print (Computers_page ''Bacon''), Print (Summary_line ''About Bacon''),
         Print Ask_user_page, Input ''Nowhere'', Get_page ''Nowhere'' None,
         Print (Could_not_find ''Nowhere''), Print Ask_user_page]\<rparr>"

definition demo_world_empty :: world where
  "demo_world_empty = \<lparr>stdin = [], draws = 0, hard_mode = False, trace = []\<rparr>"

definition demo_world_greeted :: world where
  "demo_world_greeted = \<lparr>stdin = [], draws = 0, hard_mode = False, trace = greeting\<rparr>"

definition demo_world_user :: world where
  "demo_world_user =
     \<lparr>stdin = [], draws = 0, hard_mode = False,
      trace =
        [Print Ask_user_page, Input ''Nowhere'', Get_page ''Nowhere'' None,
         Print (Could_not_find ''Nowhere''), Print Ask_user_page, Input ''Toast'',
         Get_page ''Toast'' (Some (demo_page ''Toast''))]\<rparr>"

definition demo_world_short_user :: world where
  "demo_world_short_user =
     \<lparr>stdin = [], draws = 0, hard_mode = False,
      trace =
        [Print Ask_user_page, Input ''Nowhere'', Get_page ''Nowhere'' None,
         Print (Could_not_find ''Nowhere''), Print Ask_user_page]\<rparr>"

definition demo_world_drawn :: world where
  "demo_world_drawn =
     \<lparr>stdin = [], draws = 1, hard_mode = False,
      trace = [Choice ''Nowhere'', Get_page ''Nowhere'' None]\<rparr>"

definition demo_world_asked :: world where
  "demo_world_asked =
     \<lparr>stdin = [], draws = 0, hard_mode = False,
      trace =
        [Print Ask_user_page, Input ''Nowhere'', Get_page ''Nowhere'' None,
         Print (Could_not_find ''Nowhere'')]\<rparr>"

text \<open>A world in which the user interrupts the program at the second prompt.\<close>

definition demo_world_interrupted :: world where
  "demo_world_interrupted =
     \<lparr>stdin = [Line ''Nowhere'', Interrupt, Line ''Toast''], draws = 0, hard_mode = False,
      trace = []\<rparr>"

definition demo_world_interrupted_after :: world where
  "demo_world_interrupted_after =
     \<lparr>stdin = [Interrupt, Line ''Toast''], draws = 0, hard_mode = False,
      trace =
        [Print Ask_user_page, Input ''Nowhere'', Get_page ''Nowhere'' None,
         Print (Could_not_find ''Nowhere''), Print Ask_user_page]\<rparr>"

text \<open>Pages whose summary has 600 characters, every name resolving to such a page.\<close>

definition demo_long_page :: "string \<Rightarrow> page" where
  "demo_long_page t =
     \<lparr>identifier = t, title = t, summary = replicate 600 (CHR ''x''), links = [],
      categories = []\<rparr>"

definition demo_env_long :: env where
  "demo_env_long = demo_env\<lparr>wiki_get_page := (\<lambda>n. Some (demo_long_page n))\<rparr>"

definition demo_world_long_after :: world where
  "demo_world_long_after =
     \<lparr>stdin = [], draws = 2, hard_mode = False,
      trace =
        [Choice ''Nowhere'', Get_page ''Nowhere'' (Some (demo_long_page ''Nowhere'')),
         Print (Starting_page ''Nowhere''), Print (Summary_line (replicate 500 (CHR ''x''))),
         Choice ''Egg'', Get_page ''Egg'' (Some (demo_long_page ''Egg'')),
         Print (Computers_page ''Egg''), Print (Summary_line (replicate 500 (CHR ''x''))),
         Print Ask_user_page]\<rparr>"

text \<open>A world in which no name resolves.\<close>

definition demo_env_stuck :: env where
  "demo_env_stuck = demo_env\<lparr>wiki_get_page := (\<lambda>n. None)\<rparr>"

text \<open>The worlds in which the second loop over the dictionary is entered.\<close>

definition demo_world_started :: world where
  "demo_world_started =
     \<lparr>stdin = [Line ''Nowhere''], draws = 2, hard_mode = False,
      trace =
        [Choice ''Nowhere'', Get_page ''Nowhere'' None,
         Choice ''Egg'', Get_page ''Egg'' (Some (demo_page ''Egg'')),
         Print (Starting_page ''Egg''), Print (Summary_line ''About Egg'')]\<rparr>"

definition demo_world_long_started :: world where
  "demo_world_long_started =
     \<lparr>stdin = [], draws = 1, hard_mode = False,
      trace =
        [Choice ''Nowhere'', Get_page ''Nowhere'' (Some (demo_long_page ''Nowhere'')),
         Print (Starting_page ''Nowhere''),
         Print (Summary_line (replicate 500 (CHR ''x'')))]\<rparr>"

text \<open>The world in which the game of two rounds enters the game loop.\<close>

definition demo_world_ready :: world where
  "demo_world_ready =
     \<lparr>stdin = [Line ''Toast'', Line [], Line ''Toast'', Line ''q''], draws = 0,
      hard_mode = True,
      trace =
        [Print Welcome, Print Rules, Print Modes_header, Print Mode_normal_line,
         Print Mode_hard_line, Print Choose_mode_prompt, Input '' 2 '', Set_hard_mode True,
         Print Hard_activated, Print Ready, Input [], Open_dictionary]\<rparr>"

text \<open>The world in which that game begins its second round.\<close>

definition demo_world_second :: world where
  "demo_world_second =
     \<lparr>stdin = [Line ''Toast'', Line ''q''], draws = 3, hard_mode = True,
      trace =
        [Print Welcome, Print Rules, Print Modes_header, Print Mode_normal_line,
         Print Mode_hard_line, Print Choose_mode_prompt, Input '' 2 '', Set_hard_mode True,
         Print Hard_activated, Print Ready, Input [], Open_dictionary]
        @ demo_game_round @ [Print Play_again, Input []]\<rparr>"

subsection \<open>A small graph to search\<close>

text \<open>
  Four pages and a broken link: \<open>A\<close> links to \<open>B\<close> and \<open>C\<close> and has the category \<open>D\<close>;
  \<open>B\<close> links back to \<open>A\<close> and to \<open>E\<close>, which does not resolve; \<open>C\<close> links to \<open>D\<close>.
\<close>

definition demo_wiki_page :: "title \<Rightarrow> title list \<Rightarrow> title list \<Rightarrow> page" where
  "demo_wiki_page t ls cs =
     \<lparr>identifier = t, title = t, summary = [], links = ls, categories = cs\<rparr>"

definition demo_wiki :: source where
  "demo_wiki t =
     (if t = ''A'' then Some (demo_wiki_page ''A'' [''B'', ''C''] [''D''])
      else if t = ''B'' then Some (demo_wiki_page ''B'' [''A'', ''E''] [])
      else if t = ''C'' then Some (demo_wiki_page ''C'' [''D''] [])
      else if t = ''D'' then Some (demo_wiki_page ''D'' [] [])
      else None)"

definition demo_A :: page where
  "demo_A = demo_wiki_page ''A'' [''B'', ''C''] [''D'']"

definition demo_D :: page where
  "demo_D = demo_wiki_page ''D'' [] []"

text \<open>The same page under another display title.\<close>

definition demo_A_redirect :: page where
  "demo_A_redirect = demo_A\<lparr>title := ''A (letter)''\<rparr>"



section \<open>Facts about the game loop\<close>

subsection \<open>The primitive operations\<close>

lemma emit_simps [simp]:
  "trace (emit e w) = trace w @ [e]" "hard_mode (emit e w) = hard_mode w"
  "stdin (emit e w) = stdin w" "draws (emit e w) = draws w"
  by (simp_all add: emit_def)

lemma print_simps [simp]:
  "trace (print m w) = trace w @ [Print m]" "hard_mode (print m w) = hard_mode w"
  "stdin (print m w) = stdin w" "draws (print m w) = draws w"
  by (simp_all add: print_def)

lemma input_read_Inr: "input_read r = Inr l \<longleftrightarrow> r = Line l"
  by (cases r) auto

lemma input_read_Inl:
  "input_read r = Inl e \<Longrightarrow>
     e \<in> {KeyboardInterrupt, UnicodeDecodeError, RuntimeError} \<and> (\<forall>l. r \<noteq> Line l)"
  by (cases r) auto

lemma input_Inr:
  "input w = (Inr l, w') \<Longrightarrow>
     trace w' = trace w @ [Input l] \<and> hard_mode w' = hard_mode w
     \<and> stdin w = Line l # stdin w'"
  by (auto simp: input_def input_read_Inr split: list.splits sum.splits)

lemma input_Inl:
  "input w = (Inl e, w') \<Longrightarrow>
     w' = w \<and> e \<in> {EOFError, KeyboardInterrupt, UnicodeDecodeError, RuntimeError}
     \<and> (\<forall>l rs. stdin w \<noteq> Line l # rs)"
  by (auto simp: input_def split: list.splits sum.splits dest: input_read_Inl)

lemma input_stdin_cong:
  "stdin w1 = stdin w2 \<Longrightarrow> fst (input w1) = fst (input w2)"
  by (simp add: input_def split: list.splits sum.splits)

subsection \<open>Reading the trace\<close>

lemma map_filter_app:
  "List.map_filter f (xs @ ys) = List.map_filter f xs @ List.map_filter f ys"
  by (simp add: List.map_filter_def)

lemma resolved_simps [simp]:
  "resolved [] = []"
  "resolved (xs @ ys) = resolved xs @ resolved ys"
  "resolved (Get_page n None # es) = resolved es"
  "resolved (Get_page n (Some p) # es) = p # resolved es"
  "resolved (Print m # es) = resolved es"
  "resolved (Input l # es) = resolved es"
  "resolved (Choice c # es) = resolved es"
  "resolved (Open_dictionary # es) = resolved es"
  "resolved (Set_hard_mode b # es) = resolved es"
  "resolved (Find_short_path a b' q # es) = resolved es"
  by (simp_all add: resolved_def List.map_filter_simps map_filter_app)

lemma summaries_shown_simps [simp]:
  "summaries_shown [] = []"
  "summaries_shown (xs @ ys) = summaries_shown xs @ summaries_shown ys"
  "summaries_shown (e # es) =
     (case shown_summary e of None \<Rightarrow> summaries_shown es | Some x \<Rightarrow> x # summaries_shown es)"
  by (simp_all add: summaries_shown_def List.map_filter_simps map_filter_app
        split: option.splits)

lemma titles_shown_simps [simp]:
  "titles_shown [] = []"
  "titles_shown (xs @ ys) = titles_shown xs @ titles_shown ys"
  "titles_shown (e # es) =
     (case shown_title e of None \<Rightarrow> titles_shown es | Some x \<Rightarrow> x # titles_shown es)"
  by (simp_all add: titles_shown_def List.map_filter_simps map_filter_app
        split: option.splits)

lemma searches_simps [simp]:
  "searches [] = []"
  "searches (xs @ ys) = searches xs @ searches ys"
  "searches (e # es) = (if is_search e then e # searches es else searches es)"
  by (simp_all add: searches_def)

lemma resolved_mem:
  "p \<in> set (resolved evs) \<longleftrightarrow> (\<exists>n. Get_page n (Some p) \<in> set evs)"
proof (induction evs)
  case Nil
  then show ?case by simp
next
  case (Cons e es)
  then show ?case
    by (cases e; cases "got_page e") (auto simp: resolved_def List.map_filter_simps)
qed

lemma random_choice_Inr:
  "random_choice env cw w = (Inr x, w') \<Longrightarrow>
     cw \<noteq> [] \<and> x \<in> set cw \<and> trace w' = trace w @ [Choice x]
     \<and> hard_mode w' = hard_mode w \<and> stdin w' = stdin w"
  by (auto simp: random_choice_def Let_def split: if_splits)

lemma random_choice_Inl:
  "random_choice env cw w = (Inl e, w') \<Longrightarrow> e = IndexError \<and> w' = w \<and> cw = []"
  by (auto simp: random_choice_def Let_def split: if_splits)

lemma show_page_Inr:
  "show_page label pg w = (Inr p, w') \<Longrightarrow>
     pg = Some p \<and> trace w' = trace w @ page_events label p
     \<and> hard_mode w' = hard_mode w \<and> stdin w' = stdin w"
  by (auto simp: show_page_def page_events_def split: option.splits)

lemma show_page_Inl:
  "show_page label pg w = (Inl e, w') \<Longrightarrow> pg = None \<and> e = AttributeError \<and> w' = w"
  by (auto simp: show_page_def split: option.splits)

lemma report_path_eq:
  "report_path header path w = (s, w') \<Longrightarrow>
     s = path_score path \<and> trace w' = trace w @ report_events header path
     \<and> hard_mode w' = hard_mode w \<and> stdin w' = stdin w"
  by (auto simp: report_path_def path_score_def report_events_def truthy_path_def Let_def
           split: option.splits if_splits)

lemma announce_simps [simp]:
  "trace (announce c u w) = trace w @ [Print (verdict c u)]"
  "hard_mode (announce c u w) = hard_mode w" "stdin (announce c u w) = stdin w"
  by (simp_all add: announce_def verdict_def)

subsection \<open>The retry loops\<close>

lemmas random_page_loop_induct =
  random_page_loop.raw_induct [rotated 1, consumes 1, case_names step]

lemmas user_page_loop_induct =
  user_page_loop.raw_induct [rotated 1, consumes 1, case_names step]

lemmas game_loop_induct =
  game_loop.raw_induct [rotated 1, consumes 1, case_names step]

lemma random_page_loop_post:
  "random_page_loop env cw pg w = Some y \<Longrightarrow>
     \<exists>evs. trace (snd y) = trace w @ evs \<and> list_all loop_event evs
       \<and> (\<forall>n r. Get_page n r \<in> set evs \<longrightarrow> r = wiki_get_page env n)
       \<and> hard_mode (snd y) = hard_mode w \<and> stdin (snd y) = stdin w
       \<and> (case fst y of
             Inr pg' \<Rightarrow> truthy_page pg' \<and>
                (pg' = pg \<or> (\<exists>n. Get_page n pg' \<in> set evs \<and> wiki_get_page env n = pg'))
                \<and> (if truthy_page pg then evs = [] else resolved evs = [the pg'])
           | Inl e \<Rightarrow> e = IndexError \<and> cw = [] \<and> evs = [])"
proof (induction rule: random_page_loop_induct)
  case (step loop env cw pg w y)
  show ?case
  proof (cases "truthy_page pg")
    case True
    with step(2) show ?thesis by auto
  next
    case False
    obtain r w1 where rc: "random_choice env cw w = (r, w1)"
      by (cases "random_choice env cw w")
    show ?thesis
    proof (cases r)
      case (Inl e)
      with False rc step(2) random_choice_Inl[of env cw w e w1] show ?thesis
        by auto
    next
      case (Inr word)
      let ?pg = "wiki_get_page env word"
      from False rc step(2) Inr
      have "loop env cw ?pg (emit (Get_page word ?pg) w1) = Some y"
        by simp
      from step(1)[OF this] obtain evs where
        evs: "trace (snd y) = trace (emit (Get_page word ?pg) w1) @ evs"
          "list_all loop_event evs"
          "hard_mode (snd y) = hard_mode (emit (Get_page word ?pg) w1)"
          "stdin (snd y) = stdin (emit (Get_page word ?pg) w1)"
          "case fst y of
             Inr pg' \<Rightarrow> truthy_page pg' \<and>
               (pg' = ?pg \<or> (\<exists>n. Get_page n pg' \<in> set evs \<and> wiki_get_page env n = pg'))
               \<and> (if truthy_page ?pg then evs = [] else resolved evs = [the pg'])
           | Inl e \<Rightarrow> e = IndexError \<and> cw = [] \<and> evs = []"
          "\<forall>n r. Get_page n r \<in> set evs \<longrightarrow> r = wiki_get_page env n"
        by blast
      from random_choice_Inr[of env cw w word w1] rc Inr
      have w1: "trace w1 = trace w @ [Choice word]" "hard_mode w1 = hard_mode w"
        "stdin w1 = stdin w" "cw \<noteq> []" by simp_all
      let ?evs = "Choice word # Get_page word ?pg # evs"
      have "trace (snd y) = trace w @ ?evs" using evs(1) w1 by simp
      moreover have "list_all loop_event ?evs" using evs(2) by simp
      moreover have "hard_mode (snd y) = hard_mode w" using evs(3) w1 by simp
      moreover have "stdin (snd y) = stdin w" using evs(4) w1 by simp
      moreover have "\<forall>n r. Get_page n r \<in> set ?evs \<longrightarrow> r = wiki_get_page env n"
        using evs(6) by auto
      moreover have "case fst y of
             Inr pg' \<Rightarrow> truthy_page pg' \<and>
               (pg' = pg \<or> (\<exists>n. Get_page n pg' \<in> set ?evs \<and> wiki_get_page env n = pg'))
               \<and> (if truthy_page pg then ?evs = [] else resolved ?evs = [the pg'])
           | Inl e \<Rightarrow> e = IndexError \<and> cw = [] \<and> ?evs = []"
        using evs(5) w1(4) False
        by (cases "wiki_get_page env word") (auto simp: truthy_page_def split: sum.splits)
      ultimately show ?thesis by blast
    qed
  qed
qed

lemma user_page_loop_post:
  "user_page_loop env pg w = Some y \<Longrightarrow>
     \<exists>evs. trace (snd y) = trace w @ evs \<and> list_all loop_event evs
       \<and> (\<forall>n r. Get_page n r \<in> set evs \<longrightarrow> r = wiki_get_page env n)
       \<and> hard_mode (snd y) = hard_mode w \<and> length (stdin (snd y)) \<le> length (stdin w)
       \<and> (case fst y of
             Inr pg' \<Rightarrow> truthy_page pg' \<and>
                (pg' = pg \<or> (\<exists>n. Get_page n pg' \<in> set evs \<and> wiki_get_page env n = pg'))
                \<and> (if truthy_page pg then evs = [] else resolved evs = [the pg'])
           | Inl e \<Rightarrow> input (snd y) = (Inl e, snd y) \<and> resolved evs = [] \<and> \<not> truthy_page pg)"
proof (induction rule: user_page_loop_induct)
  case (step loop env pg w y)
  show ?case
  proof (cases "truthy_page pg")
    case True
    with step(2) show ?thesis by auto
  next
    case False
    obtain r w1 where rc: "input (print Ask_user_page w) = (r, w1)"
      by (cases "input (print Ask_user_page w)")
    show ?thesis
    proof (cases r)
      case (Inl e)
      with False rc step(2) input_Inl[of "print Ask_user_page w" e w1] show ?thesis
        by (intro exI[of _ "[Print Ask_user_page]"]) auto
    next
      case (Inr name)
      let ?pg = "wiki_get_page env name"
      let ?w2 = "emit (Get_page name ?pg) w1"
      let ?w3 = "if \<not> truthy_page ?pg then print (Could_not_find name) ?w2 else ?w2"
      let ?tl = "if \<not> truthy_page ?pg then [Print (Could_not_find name)] else []"
      from False rc step(2) Inr
      have "loop env ?pg ?w3 = Some y"
        by (simp add: Let_def)
      from step(1)[OF this] obtain evs where
        evs: "trace (snd y) = trace ?w3 @ evs"
          "list_all loop_event evs"
          "hard_mode (snd y) = hard_mode ?w3"
          "case fst y of
             Inr pg' \<Rightarrow> truthy_page pg' \<and>
               (pg' = ?pg \<or> (\<exists>n. Get_page n pg' \<in> set evs \<and> wiki_get_page env n = pg'))
               \<and> (if truthy_page ?pg then evs = [] else resolved evs = [the pg'])
           | Inl e \<Rightarrow> input (snd y) = (Inl e, snd y) \<and> resolved evs = []
               \<and> \<not> truthy_page ?pg"
          "\<forall>n r. Get_page n r \<in> set evs \<longrightarrow> r = wiki_get_page env n"
          "length (stdin (snd y)) \<le> length (stdin ?w3)"
        by blast
      from input_Inr[of "print Ask_user_page w" name w1] rc Inr
      have w1: "trace w1 = trace w @ [Print Ask_user_page, Input name]"
        "hard_mode w1 = hard_mode w" "stdin w = Line name # stdin w1" by simp_all
      let ?evs = "Print Ask_user_page # Input name # Get_page name ?pg # ?tl @ evs"
      have "trace (snd y) = trace w @ ?evs" using evs(1) w1 by simp
      moreover have "list_all loop_event ?evs" using evs(2) by simp
      moreover have "hard_mode (snd y) = hard_mode w" using evs(3) w1 by simp
      moreover have "\<forall>n r. Get_page n r \<in> set ?evs \<longrightarrow> r = wiki_get_page env n"
        using evs(5) by auto
      moreover have "length (stdin (snd y)) \<le> length (stdin w)"
      proof -
        have "stdin ?w3 = stdin w1" by simp
        with evs(6) w1(3) show ?thesis by simp
      qed
      moreover have "case fst y of
             Inr pg' \<Rightarrow> truthy_page pg' \<and>
               (pg' = pg \<or> (\<exists>n. Get_page n pg' \<in> set ?evs \<and> wiki_get_page env n = pg'))
               \<and> (if truthy_page pg then ?evs = [] else resolved ?evs = [the pg'])
           | Inl e \<Rightarrow> input (snd y) = (Inl e, snd y) \<and> resolved ?evs = []
               \<and> \<not> truthy_page pg"
        using evs(4) False
        by (cases "wiki_get_page env name") (auto simp: truthy_page_def split: sum.splits)
      ultimately show ?thesis by blast
    qed
  qed
qed

subsection \<open>One round\<close>

lemma loop_event_quiet:
  "loop_event e \<Longrightarrow>
     \<not> is_search e \<and> \<not> is_set_hard_mode e \<and> shown_summary e = None \<and> shown_title e = None"
  by (cases e rule: loop_event.cases) simp_all

lemma loop_events_filter:
  assumes "list_all loop_event evs"
  shows "filter is_search evs = []" "filter is_set_hard_mode evs = []"
    "List.map_filter shown_summary evs = []" "searches evs = []"
    "summaries_shown evs = []" "titles_shown evs = []"
  using assms by (induction evs) (auto simp: List.map_filter_simps dest: loop_event_quiet)

lemma answered_by_simps [simp]:
  "answered_by env []"
  "answered_by env (xs @ ys) \<longleftrightarrow> answered_by env xs \<and> answered_by env ys"
  "answered_by env (Get_page n r # es) \<longleftrightarrow> r = wiki_get_page env n \<and> answered_by env es"
  "answered_by env (Print m # es) \<longleftrightarrow> answered_by env es"
  "answered_by env (Input l # es) \<longleftrightarrow> answered_by env es"
  "answered_by env (Choice c # es) \<longleftrightarrow> answered_by env es"
  "answered_by env (Open_dictionary # es) \<longleftrightarrow> answered_by env es"
  "answered_by env (Set_hard_mode b # es) \<longleftrightarrow> answered_by env es"
  "answered_by env (Find_short_path a b' q # es) \<longleftrightarrow> answered_by env es"
  by (simp_all add: answered_by_def)

lemma answered_byI:
  "(\<forall>n r. Get_page n r \<in> set evs \<longrightarrow> r = wiki_get_page env n) \<Longrightarrow> answered_by env evs"
  by (auto simp: answered_by_def list_all_iff split: event.splits)

lemma answered_by_resolved:
  "answered_by env evs \<Longrightarrow> p \<in> set (resolved evs) \<Longrightarrow> \<exists>n. wiki_get_page env n = Some p"
  by (simp add: resolved_mem answered_by_def list_all_iff split: event.splits)
     (metis)

lemma shown_as_resolved_simps [simp]:
  "shown_as_resolved []"
  "shown_as_resolved xs \<Longrightarrow> shown_as_resolved ys \<Longrightarrow> shown_as_resolved (xs @ ys)"
  by (simp_all add: shown_as_resolved_def)

lemma shown_as_resolved_page:
  assumes "list_all loop_event evs" "resolved evs = [p]"
    "label = Starting_page \<or> label = Computers_page \<or> label = Your_page"
  shows "shown_as_resolved (evs @ page_events label p)"
  using assms loop_events_filter(5,6)[OF assms(1)]
  by (auto simp: shown_as_resolved_def page_events_def)

lemma shown_as_resolved_loop:
  assumes "list_all loop_event evs" "resolved evs = []"
  shows "shown_as_resolved evs"
  using assms loop_events_filter(5,6)[OF assms(1)]
  by (simp add: shown_as_resolved_def)

lemma report_events_quiet [simp]:
  "resolved (report_events h q) = []" "answered_by env (report_events h q)"
  "filter is_set_hard_mode (report_events h q) = []"
  "searches (report_events h q) = []"
  "summaries_shown (report_events Computers_path q) = []"
  "summaries_shown (report_events Your_path q) = []"
  "titles_shown (report_events Computers_path q) = []"
  "titles_shown (report_events Your_path q) = []"
  by (auto simp: report_events_def split: option.splits)

lemma verdict_quiet [simp]:
  "shown_summary (Print (verdict c u)) = None" "shown_title (Print (verdict c u)) = None"
  by (simp_all add: verdict_def)

lemma play_round_Inr:
  assumes "play_round env cw w = Some (Inr r, w')"
  shows "\<exists>evs1 evs2 evs3.
           trace w' = trace w @ round_events r evs1 evs2 evs3
         \<and> list_all loop_event evs1 \<and> list_all loop_event evs2 \<and> list_all loop_event evs3
         \<and> (\<exists>n. Get_page n (Some (start_page r)) \<in> set evs1
                \<and> wiki_get_page env n = Some (start_page r))
         \<and> (\<exists>n. Get_page n (Some (computer_page r)) \<in> set evs2
                \<and> wiki_get_page env n = Some (computer_page r))
         \<and> (\<exists>n. Get_page n (Some (user_page r)) \<in> set evs3
                \<and> wiki_get_page env n = Some (user_page r))
         \<and> resolved evs1 = [start_page r] \<and> resolved evs2 = [computer_page r]
         \<and> resolved evs3 = [user_page r]
         \<and> answered_by env evs1 \<and> answered_by env evs2 \<and> answered_by env evs3
         \<and> length (stdin w') \<le> length (stdin w)
         \<and> hard_mode w' = hard_mode w
         \<and> computer_path r =
             wiki_find_short_path env (hard_mode w) (start_page r) (computer_page r)
         \<and> user_path r = wiki_find_short_path env (hard_mode w) (start_page r) (user_page r)
         \<and> computer_score r = path_score (computer_path r)
         \<and> user_score r = path_score (user_path r)"
proof -
  from assms obtain sp w1 where l1: "random_page_loop env cw None w = Some (Inr sp, w1)"
    by (auto simp: play_round_def split: option.splits sum.splits prod.splits)
  with assms obtain p1 w2 where s1: "show_page Starting_page sp w1 = (Inr p1, w2)"
    by (auto simp: play_round_def split: option.splits sum.splits prod.splits)
  with assms l1 obtain cp w3 where l2: "random_page_loop env cw None w2 = Some (Inr cp, w3)"
    by (auto simp: play_round_def split: option.splits sum.splits prod.splits)
  with assms l1 s1 obtain p2 w4 where s2: "show_page Computers_page cp w3 = (Inr p2, w4)"
    by (auto simp: play_round_def split: option.splits sum.splits prod.splits)
  with assms l1 s1 l2 obtain up w5 where l3: "user_page_loop env None w4 = Some (Inr up, w5)"
    by (auto simp: play_round_def split: option.splits sum.splits prod.splits)
  with assms l1 s1 l2 s2 obtain p3 w6 where s3: "show_page Your_page up w5 = (Inr p3, w6)"
    by (auto simp: play_round_def split: option.splits sum.splits prod.splits)
  let ?w7 = "print Calculating w6"
  let ?cpath = "wiki_find_short_path env (hard_mode ?w7) p1 p2"
  let ?w8 = "emit (Find_short_path p1 p2 ?cpath) ?w7"
  obtain cs w9 where r1: "report_path Computers_path ?cpath ?w8 = (cs, w9)"
    by (cases "report_path Computers_path ?cpath ?w8")
  let ?upath = "wiki_find_short_path env (hard_mode w9) p1 p3"
  let ?w10 = "emit (Find_short_path p1 p3 ?upath) w9"
  obtain us w11 where r2: "report_path Your_path ?upath ?w10 = (us, w11)"
    by (cases "report_path Your_path ?upath ?w10")
  from assms l1 s1 l2 s2 l3 s3 r1 r2
  have r: "r = \<lparr>start_page = p1, computer_page = p2, user_page = p3, computer_path = ?cpath,
                 user_path = ?upath, computer_score = cs, user_score = us\<rparr>"
    and w': "w' = announce cs us w11"
    by (simp_all add: play_round_def Let_def)
  from random_page_loop_post[OF l1] obtain evs1 where
    e1: "trace w1 = trace w @ evs1" "list_all loop_event evs1" "hard_mode w1 = hard_mode w"
      "truthy_page sp" "\<exists>n. Get_page n sp \<in> set evs1 \<and> wiki_get_page env n = sp"
      "resolved evs1 = [the sp]" "answered_by env evs1" "stdin w1 = stdin w"
    by (auto simp: truthy_page_def intro: answered_byI)
  from show_page_Inr[OF s1] have
    e2: "sp = Some p1" "trace w2 = trace w1 @ page_events Starting_page p1"
      "hard_mode w2 = hard_mode w1" "stdin w2 = stdin w1" by simp_all
  from random_page_loop_post[OF l2] obtain evs2 where
    e3: "trace w3 = trace w2 @ evs2" "list_all loop_event evs2" "hard_mode w3 = hard_mode w2"
      "truthy_page cp" "\<exists>n. Get_page n cp \<in> set evs2 \<and> wiki_get_page env n = cp"
      "resolved evs2 = [the cp]" "answered_by env evs2" "stdin w3 = stdin w2"
    by (auto simp: truthy_page_def intro: answered_byI)
  from show_page_Inr[OF s2] have
    e4: "cp = Some p2" "trace w4 = trace w3 @ page_events Computers_page p2"
      "hard_mode w4 = hard_mode w3" "stdin w4 = stdin w3" by simp_all
  from user_page_loop_post[OF l3] obtain evs3 where
    e5: "trace w5 = trace w4 @ evs3" "list_all loop_event evs3" "hard_mode w5 = hard_mode w4"
      "truthy_page up" "\<exists>n. Get_page n up \<in> set evs3 \<and> wiki_get_page env n = up"
      "resolved evs3 = [the up]" "answered_by env evs3"
      "length (stdin w5) \<le> length (stdin w4)"
    by (auto simp: truthy_page_def intro: answered_byI)
  from show_page_Inr[OF s3] have
    e6: "up = Some p3" "trace w6 = trace w5 @ page_events Your_page p3"
      "hard_mode w6 = hard_mode w5" "stdin w6 = stdin w5" by simp_all
  from report_path_eq[OF r1] have
    e7: "cs = path_score ?cpath" "trace w9 = trace ?w8 @ report_events Computers_path ?cpath"
      "hard_mode w9 = hard_mode ?w8" "stdin w9 = stdin ?w8" by simp_all
  from report_path_eq[OF r2] have
    e8: "us = path_score ?upath" "trace w11 = trace ?w10 @ report_events Your_path ?upath"
      "hard_mode w11 = hard_mode ?w10" "stdin w11 = stdin ?w10" by simp_all
  have hm: "hard_mode ?w7 = hard_mode w" "hard_mode w9 = hard_mode w"
    using e1(3) e2(3) e3(3) e4(3) e5(3) e6(3) e7(3) by simp_all
  have "trace w' = trace w @ round_events r evs1 evs2 evs3"
    unfolding w' r round_events_def
    using e1(1) e2(2) e3(1) e4(2) e5(1) e6(2) e7(2) e8(2) by simp
  moreover have "hard_mode w' = hard_mode w"
    unfolding w' using hm(2) e8(3) by simp
  moreover have "computer_path r = wiki_find_short_path env (hard_mode w) (start_page r) (computer_page r)"
    unfolding r using hm(1) by simp
  moreover have "user_path r = wiki_find_short_path env (hard_mode w) (start_page r) (user_page r)"
    unfolding r using hm(2) by simp
  moreover have "computer_score r = path_score (computer_path r)"
    unfolding r using e7(1) by simp
  moreover have "user_score r = path_score (user_path r)"
    unfolding r using e8(1) by simp
  moreover have "\<exists>n. Get_page n (Some (start_page r)) \<in> set evs1
                \<and> wiki_get_page env n = Some (start_page r)"
    unfolding r using e1(5) e2(1) by simp
  moreover have "\<exists>n. Get_page n (Some (computer_page r)) \<in> set evs2
                \<and> wiki_get_page env n = Some (computer_page r)"
    unfolding r using e3(5) e4(1) by simp
  moreover have "\<exists>n. Get_page n (Some (user_page r)) \<in> set evs3
                \<and> wiki_get_page env n = Some (user_page r)"
    unfolding r using e5(5) e6(1) by simp
  moreover have "resolved evs1 = [start_page r]" "resolved evs2 = [computer_page r]"
    "resolved evs3 = [user_page r]"
    unfolding r using e1(6) e2(1) e3(6) e4(1) e5(6) e6(1) by simp_all
  moreover have "length (stdin w') \<le> length (stdin w)"
    unfolding w' using e1(8) e2(4) e3(8) e4(4) e5(8) e6(4) e7(4) e8(4) by simp
  ultimately show ?thesis using e1(2,7) e3(2,7) e5(2,7) by blast
qed

lemma round_events_quiet:
  assumes "list_all loop_event evs1" "list_all loop_event evs2" "list_all loop_event evs3"
    "resolved evs1 = [start_page r]" "resolved evs2 = [computer_page r]"
    "resolved evs3 = [user_page r]"
  shows "filter is_set_hard_mode (round_events r evs1 evs2 evs3) = []"
    "searches (round_events r evs1 evs2 evs3) =
       [Find_short_path (start_page r) (computer_page r) (computer_path r),
        Find_short_path (start_page r) (user_page r) (user_path r)]"
    "resolved (round_events r evs1 evs2 evs3) = [start_page r, computer_page r, user_page r]"
    "titles_shown (round_events r evs1 evs2 evs3)
       = [title (start_page r), title (computer_page r), title (user_page r)]"
    "summaries_shown (round_events r evs1 evs2 evs3)
       = [take 500 (summary (start_page r)), take 500 (summary (computer_page r)),
          take 500 (summary (user_page r))]"
  using loop_events_filter[OF assms(1)] loop_events_filter[OF assms(2)]
    loop_events_filter[OF assms(3)] assms(4-6)
  by (simp_all add: round_events_def page_events_def)

lemma round_events_answered:
  assumes "answered_by env evs1" "answered_by env evs2" "answered_by env evs3"
  shows "answered_by env (round_events r evs1 evs2 evs3)"
  using assms by (simp add: round_events_def page_events_def)


subsection \<open>Rounds that do not run to their end\<close>

lemma random_page_loop_Inr:
  "random_page_loop env cw pg w = Some (Inr pg', w') \<Longrightarrow> pg' \<noteq> None"
  using random_page_loop_post[of env cw pg w "(Inr pg', w')"] by (auto simp: truthy_page_def)

lemma random_page_loop_Inl:
  "random_page_loop env cw pg w = Some (Inl e, w') \<Longrightarrow>
     e = IndexError \<and> cw = [] \<and> trace w' = trace w"
  using random_page_loop_post[of env cw pg w "(Inl e, w')"] by auto

lemma user_page_loop_Inr:
  "user_page_loop env pg w = Some (Inr pg', w') \<Longrightarrow> pg' \<noteq> None"
  using user_page_loop_post[of env pg w "(Inr pg', w')"] by (auto simp: truthy_page_def)

lemma user_page_loop_Inl:
  "user_page_loop env pg w = Some (Inl e, w') \<Longrightarrow> input w' = (Inl e, w')"
  using user_page_loop_post[of env pg w "(Inl e, w')"] by auto

lemma orderly_simps [simp]:
  "orderly env []"
  "orderly env xs \<Longrightarrow> orderly env ys \<Longrightarrow> orderly env (xs @ ys)"
  by (simp_all add: orderly_def)

lemma orderly_page:
  assumes "list_all loop_event evs" "resolved evs = [p]" "answered_by env evs"
    "label = Starting_page \<or> label = Computers_page \<or> label = Your_page"
  shows "orderly env (evs @ page_events label p)" "searches (evs @ page_events label p) = []"
  using shown_as_resolved_page[OF assms(1,2,4)] loop_events_filter[OF assms(1)] assms(3)
  by (simp_all add: orderly_def page_events_def)

lemma orderly_loop:
  assumes "list_all loop_event evs" "resolved evs = []" "answered_by env evs"
  shows "orderly env evs" "searches evs = []"
  using shown_as_resolved_loop[OF assms(1,2)] loop_events_filter[OF assms(1)] assms(3)
  by (simp_all add: orderly_def)

text \<open>A retry loop over the dictionary that found its page, and the display of the page.\<close>

lemma random_segment:
  assumes "random_page_loop env cw None w = Some (Inr sp, w1)"
    "show_page label sp w1 = (Inr p, w2)"
    "label = Starting_page \<or> label = Computers_page \<or> label = Your_page"
  shows "\<exists>evs. trace w2 = trace w @ evs \<and> orderly env evs \<and> searches evs = []
           \<and> stdin w2 = stdin w \<and> hard_mode w2 = hard_mode w"
proof -
  from random_page_loop_post[OF assms(1)] obtain evs where
    e: "trace w1 = trace w @ evs" "list_all loop_event evs" "resolved evs = [the sp]"
      "stdin w1 = stdin w" "hard_mode w1 = hard_mode w"
      "\<forall>n r. Get_page n r \<in> set evs \<longrightarrow> r = wiki_get_page env n"
    by (auto simp: truthy_page_def)
  from show_page_Inr[OF assms(2)] have
    s: "sp = Some p" "trace w2 = trace w1 @ page_events label p" "stdin w2 = stdin w1"
      "hard_mode w2 = hard_mode w1" by simp_all
  from e(3) s(1) have r: "resolved evs = [p]" by simp
  from orderly_page[OF e(2) r answered_byI[OF e(6)] assms(3)] e(1,4,5) s(2,3,4)
  show ?thesis by (intro exI[of _ "evs @ page_events label p"]) simp
qed

lemma user_segment:
  assumes "user_page_loop env None w = Some (Inr up, w1)"
    "show_page label up w1 = (Inr p, w2)"
    "label = Starting_page \<or> label = Computers_page \<or> label = Your_page"
  shows "\<exists>evs. trace w2 = trace w @ evs \<and> orderly env evs \<and> searches evs = []
           \<and> length (stdin w2) \<le> length (stdin w) \<and> hard_mode w2 = hard_mode w"
proof -
  from user_page_loop_post[OF assms(1)] obtain evs where
    e: "trace w1 = trace w @ evs" "list_all loop_event evs" "resolved evs = [the up]"
      "length (stdin w1) \<le> length (stdin w)" "hard_mode w1 = hard_mode w"
      "\<forall>n r. Get_page n r \<in> set evs \<longrightarrow> r = wiki_get_page env n"
    by (auto simp: truthy_page_def)
  from show_page_Inr[OF assms(2)] have
    s: "up = Some p" "trace w2 = trace w1 @ page_events label p" "stdin w2 = stdin w1"
      "hard_mode w2 = hard_mode w1" by simp_all
  from e(3) s(1) have r: "resolved evs = [p]" by simp
  from orderly_page[OF e(2) r answered_byI[OF e(6)] assms(3)] e(1,4,5) s(2,3,4)
  show ?thesis by (intro exI[of _ "evs @ page_events label p"]) simp
qed

lemma user_failure:
  assumes "user_page_loop env None w = Some (Inl e, w1)"
  shows "\<exists>evs. trace w1 = trace w @ evs \<and> orderly env evs \<and> searches evs = []
           \<and> input w1 = (Inl e, w1)"
proof -
  from user_page_loop_post[OF assms] obtain evs where
    e: "trace w1 = trace w @ evs" "list_all loop_event evs" "resolved evs = []"
      "input w1 = (Inl e, w1)"
      "\<forall>n r. Get_page n r \<in> set evs \<longrightarrow> r = wiki_get_page env n"
    by auto
  from orderly_loop[OF e(2,3) answered_byI[OF e(5)]] e(1,4)
  show ?thesis by blast
qed

text \<open>
  A round that ends with an exception: the exception comes from \<^verbatim>\<open>random.choice\<close> or
  from \<^verbatim>\<open>input()\<close>, and the round has made no search.
\<close>

lemma play_round_Inl:
  assumes "play_round env cw w = Some (Inl e, w')"
  shows "((e = IndexError \<and> cw = []) \<or> input w' = (Inl e, w'))
         \<and> (\<exists>evs. trace w' = trace w @ evs \<and> orderly env evs \<and> searches evs = [])"
proof -
  consider
      (a) "random_page_loop env cw None w = Some (Inl e, w')"
    | (b) sp w1 where "random_page_loop env cw None w = Some (Inr sp, w1)"
        "show_page Starting_page sp w1 = (Inl e, w')"
    | (c) sp w1 p1 w2 where "random_page_loop env cw None w = Some (Inr sp, w1)"
        "show_page Starting_page sp w1 = (Inr p1, w2)"
        "random_page_loop env cw None w2 = Some (Inl e, w')"
    | (d) sp w1 p1 w2 cp w3 where "random_page_loop env cw None w = Some (Inr sp, w1)"
        "show_page Starting_page sp w1 = (Inr p1, w2)"
        "random_page_loop env cw None w2 = Some (Inr cp, w3)"
        "show_page Computers_page cp w3 = (Inl e, w')"
    | (e) sp w1 p1 w2 cp w3 p2 w4 where "random_page_loop env cw None w = Some (Inr sp, w1)"
        "show_page Starting_page sp w1 = (Inr p1, w2)"
        "random_page_loop env cw None w2 = Some (Inr cp, w3)"
        "show_page Computers_page cp w3 = (Inr p2, w4)"
        "user_page_loop env None w4 = Some (Inl e, w')"
    | (f) sp w1 p1 w2 cp w3 p2 w4 up w5 where "random_page_loop env cw None w = Some (Inr sp, w1)"
        "show_page Starting_page sp w1 = (Inr p1, w2)"
        "random_page_loop env cw None w2 = Some (Inr cp, w3)"
        "show_page Computers_page cp w3 = (Inr p2, w4)"
        "user_page_loop env None w4 = Some (Inr up, w5)"
        "show_page Your_page up w5 = (Inl e, w')"
    using assms
    by (auto simp: play_round_def Let_def split: option.splits sum.splits prod.splits)
  then show ?thesis
  proof cases
    case a
    from random_page_loop_Inl[OF a] have "e = IndexError" "cw = []" "trace w' = trace w @ []"
      by simp_all
    then show ?thesis by (intro conjI exI[of _ "[]"]) simp_all
  next
    case b
    with random_page_loop_Inr[OF b(1)] show_page_Inl[OF b(2)] show ?thesis by simp
  next
    case c
    from random_segment[OF c(1,2)] obtain evs1 where
      1: "trace w2 = trace w @ evs1" "orderly env evs1" "searches evs1 = []" by auto
    from random_page_loop_Inl[OF c(3)] 1
    have "e = IndexError" "cw = []" "trace w' = trace w @ evs1" by simp_all
    with 1 show ?thesis by blast
  next
    case d
    with random_page_loop_Inr[OF d(3)] show_page_Inl[OF d(4)] show ?thesis by simp
  next
    case e
    from random_segment[OF e(1,2)] obtain evs1 where
      1: "trace w2 = trace w @ evs1" "orderly env evs1" "searches evs1 = []" by auto
    from random_segment[OF e(3,4)] obtain evs2 where
      2: "trace w4 = trace w2 @ evs2" "orderly env evs2" "searches evs2 = []" by auto
    from user_failure[OF e(5)] obtain evs3 where
      3: "trace w' = trace w4 @ evs3" "orderly env evs3" "searches evs3 = []"
        "input w' = (Inl e, w')" by auto
    have "trace w' = trace w @ (evs1 @ evs2 @ evs3)" using 1(1) 2(1) 3(1) by simp
    moreover have "orderly env (evs1 @ evs2 @ evs3)" using 1(2) 2(2) 3(2) by simp
    moreover have "searches (evs1 @ evs2 @ evs3) = []" using 1(3) 2(3) 3(3) by simp
    ultimately show ?thesis using 3(4) by blast
  next
    case f
    with user_page_loop_Inr[OF f(5)] show_page_Inl[OF f(6)] show ?thesis by simp
  qed
qed

text \<open>
  The loop for the user's page always ends: each turn takes one read from standard
  input, and the input is finite.
\<close>

lemma user_page_loop_total: "\<exists>y. user_page_loop env pg w = Some y"
proof (induction "stdin w" arbitrary: pg w)
  case Nil
  then have "input (print Ask_user_page w) = (Inl EOFError, print Ask_user_page w)"
    by (simp add: input_def)
  then show ?case by (subst user_page_loop.simps) simp
next
  case (Cons r rs)
  show ?case
  proof (cases "truthy_page pg")
    case True
    then show ?thesis by (subst user_page_loop.simps) simp
  next
    case False
    show ?thesis
    proof (cases "input_read r")
      case (Inl e)
      with Cons(2)[symmetric]
      have "input (print Ask_user_page w) = (Inl e, print Ask_user_page w)"
        by (simp add: input_def)
      with False show ?thesis by (subst user_page_loop.simps) simp
    next
      case (Inr l)
      let ?w1 = "emit (Input l) ((print Ask_user_page w)\<lparr>stdin := rs\<rparr>)"
      let ?pg = "wiki_get_page env l"
      let ?w2 = "emit (Get_page l ?pg) ?w1"
      let ?w3 = "if \<not> truthy_page ?pg then print (Could_not_find l) ?w2 else ?w2"
      from Inr Cons(2)[symmetric] have i: "input (print Ask_user_page w) = (Inr l, ?w1)"
        by (simp add: input_def)
      have "rs = stdin ?w3" by simp
      from Cons(1)[OF this] obtain y where "user_page_loop env ?pg ?w3 = Some y" by blast
      with False i have "user_page_loop env pg w = Some y"
        by (subst user_page_loop.simps) (simp add: Let_def)
      then show ?thesis by blast
    qed
  qed
qed

subsection \<open>The game\<close>

lemma play_round_orderly:
  assumes "play_round env cw w = Some (res, w')"
  shows "\<exists>evs. trace w' = trace w @ evs \<and> orderly env evs"
proof (cases res)
  case (Inl e)
  with play_round_Inl[of env cw w e w'] assms show ?thesis by blast
next
  case (Inr r)
  with play_round_Inr[of env cw w r w'] assms obtain evs1 evs2 evs3 where
    e: "trace w' = trace w @ round_events r evs1 evs2 evs3"
      "list_all loop_event evs1" "list_all loop_event evs2" "list_all loop_event evs3"
      "resolved evs1 = [start_page r]" "resolved evs2 = [computer_page r]"
      "resolved evs3 = [user_page r]"
      "answered_by env evs1" "answered_by env evs2" "answered_by env evs3"
    by blast
  from round_events_quiet[OF e(2-7)] round_events_answered[OF e(8-10)]
  have "orderly env (round_events r evs1 evs2 evs3)"
    by (simp add: orderly_def shown_as_resolved_def)
  with e(1) show ?thesis by blast
qed

lemma orderly_small [simp]:
  "orderly env [Print Play_again]"
  "orderly env [Print Play_again, Input cmd]"
  "orderly env [Print Play_again, Input cmd, Print Thanks, Print Disclaimer]"
  "orderly env [Print Hard_activated, Print Ready]"
  "orderly env [Print Normal_selected, Print Ready]"
  "orderly env [Print Hard_activated, Print Ready, Input cmd]"
  "orderly env [Print Normal_selected, Print Ready, Input cmd]"
  "orderly env [Print Hard_activated, Print Ready, Input cmd, Open_dictionary]"
  "orderly env [Print Normal_selected, Print Ready, Input cmd, Open_dictionary]"
  by (simp_all add: orderly_def shown_as_resolved_def)

lemma game_loop_post:
  "game_loop env cw w = Some y \<Longrightarrow>
     \<exists>evs. trace (snd y) = trace w @ evs \<and> orderly env evs
       \<and> (\<forall>e. fst y = Inl e \<longrightarrow>
             (e = IndexError \<and> cw = []) \<or> input (snd y) = (Inl e, snd y))"
proof (induction rule: game_loop_induct)
  case (step loop env cw w y)
  from step(2) obtain res w1 where pr: "play_round env cw w = Some (res, w1)"
    by (cases "play_round env cw w") auto
  from play_round_orderly[OF pr] obtain evs1 where
    1: "trace w1 = trace w @ evs1" "orderly env evs1" by blast
  show ?case
  proof (cases res)
    case (Inl e)
    with pr step(2) have y: "y = (Inl e, w1)" by simp
    from play_round_Inl[of env cw w e w1] pr Inl
    have "(e = IndexError \<and> cw = []) \<or> input w1 = (Inl e, w1)" by blast
    with 1 y show ?thesis by auto
  next
    case (Inr r)
    obtain c w2 where inp: "input (print Play_again w1) = (c, w2)"
      by (cases "input (print Play_again w1)")
    show ?thesis
    proof (cases c)
      case (Inl e)
      with inp Inr pr step(2) have y: "y = (Inl e, w2)" by simp
      from input_Inl[of "print Play_again w1" e w2] inp Inl
      have 2: "w2 = print Play_again w1" "input w2 = (Inl e, w2)" by simp_all
      have "trace (snd y) = trace w @ (evs1 @ [Print Play_again])"
        using y 1(1) 2(1) by simp
      moreover have "orderly env (evs1 @ [Print Play_again])" using 1(2) by simp
      ultimately show ?thesis using y 2(2) by (intro exI[of _ "evs1 @ [Print Play_again]"]) simp
    next
      case cmd: (Inr cmd)
      from input_Inr[of "print Play_again w1" cmd w2] inp cmd
      have 2: "trace w2 = trace w1 @ [Print Play_again, Input cmd]" by simp
      show ?thesis
      proof (cases "cmd = ''q''")
        case True
        with inp Inr cmd pr step(2)
        have y: "y = (Inr (), print Disclaimer (print Thanks w2))" by simp
        let ?evs = "evs1 @ [Print Play_again, Input cmd, Print Thanks, Print Disclaimer]"
        have "trace (snd y) = trace w @ ?evs" using y 1(1) 2 by simp
        moreover have "orderly env ?evs" using 1(2) by simp
        ultimately show ?thesis using y by (intro exI[of _ ?evs]) simp
      next
        case False
        with inp Inr cmd pr step(2) have "loop env cw w2 = Some y" by simp
        from step(1)[OF this] obtain evs2 where
          3: "trace (snd y) = trace w2 @ evs2" "orderly env evs2"
            "\<forall>e. fst y = Inl e \<longrightarrow> (e = IndexError \<and> cw = []) \<or> input (snd y) = (Inl e, snd y)"
          by blast
        let ?evs = "evs1 @ [Print Play_again, Input cmd] @ evs2"
        have "trace (snd y) = trace w @ ?evs" using 1(1) 2 3(1) by simp
        moreover have "orderly env ?evs"
            using 1(2) 3(2) by (intro orderly_simps(2)) simp_all
        ultimately show ?thesis using 3(3) by blast
      qed
    qed
  qed
qed

text \<open>What \<^verbatim>\<open>main\<close> does before the first round.\<close>

lemma greeting_quiet [simp]:
  "filter is_set_hard_mode greeting = []" "searches greeting = []"
  "resolved greeting = []" "titles_shown greeting = []" "summaries_shown greeting = []"
  "answered_by env greeting"
  by (simp_all add: greeting_def)

lemma main_post:
  assumes "main env w = Some (res, w')"
  shows "(\<forall>e. fst (input w) = Inl e \<longrightarrow> res = Inl e \<and> trace w' = trace w @ greeting)
       \<and> (\<forall>l. fst (input w) = Inr l \<longrightarrow>
            (\<exists>post. trace w' = trace w @ greeting @ [Input l, Set_hard_mode (strip l = ''2'')] @ post
               \<and> orderly env post))
       \<and> (\<forall>e. res = Inl e \<longrightarrow>
            e \<in> {EOFError, KeyboardInterrupt, UnicodeDecodeError, RuntimeError, IndexError,
                  FileNotFoundError})"
proof -
  let ?w1 = "print Choose_mode_prompt (print Mode_hard_line (print Mode_normal_line
               (print Modes_header (print Rules (print Welcome w)))))"
  have t1: "trace ?w1 = trace w @ greeting" "stdin ?w1 = stdin w"
    by (simp_all add: greeting_def)
  from input_stdin_cong[OF t1(2)] have same: "fst (input ?w1) = fst (input w)" .
  obtain c0 w2 where i1: "input ?w1 = (c0, w2)" by (cases "input ?w1")
  with same have c0: "fst (input w) = c0" by simp
  show ?thesis
  proof (cases c0)
    case (Inl e0)
    from input_Inl[of ?w1 e0 w2] i1 Inl have
      "w2 = ?w1" "e0 \<in> {EOFError, KeyboardInterrupt, UnicodeDecodeError, RuntimeError}"
      by simp_all
    moreover from assms i1 Inl have "res = Inl e0" "w' = w2" by (simp_all add: main_def Let_def)
    ultimately show ?thesis using t1 c0 Inl by auto
  next
    case (Inr l)
    from input_Inr[of ?w1 l w2] i1 Inr t1
    have t2: "trace w2 = trace w @ greeting @ [Input l]" by simp
    let ?b = "strip l = ''2''"
    let ?w3 = "if ?b then print Hard_activated (set_hard_mode True w2)
               else print Normal_selected (set_hard_mode False w2)"
    let ?m = "if ?b then Hard_activated else Normal_selected"
    have t3: "trace ?w3 = trace w @ greeting @ [Input l, Set_hard_mode ?b, Print ?m]"
      using t2 by (simp add: set_hard_mode_def)
    obtain c w4 where i2: "input (print Ready ?w3) = (c, w4)"
      by (cases "input (print Ready ?w3)")
    from assms i1 i2 Inr have m: "(case c of Inl e \<Rightarrow> Some (Inl e, w4)
        | Inr cmd \<Rightarrow> if cmd = ''q'' then Some (Inr (), w4)
            else (case open_dictionary env w4 of
                    (Inl e, w5) \<Rightarrow> Some (Inl e, w5)
                  | (Inr common_words, w5) \<Rightarrow> game_loop env common_words w5)) = Some (res, w')"
      by (simp add: main_def Let_def)
    have "\<exists>post. trace w' = trace w @ greeting @ [Input l, Set_hard_mode ?b] @ post
               \<and> orderly env post
               \<and> (\<forall>e. res = Inl e \<longrightarrow>
                    e \<in> {EOFError, KeyboardInterrupt, UnicodeDecodeError, RuntimeError,
                          IndexError, FileNotFoundError})"
    proof (cases c)
      case (Inl e)
      with m have r: "res = Inl e" "w' = w4" by simp_all
      from input_Inl[of "print Ready ?w3" e w4] i2 Inl
      have "e \<in> {EOFError, KeyboardInterrupt, UnicodeDecodeError, RuntimeError}"
        "w4 = print Ready ?w3" by simp_all
      with r t3 show ?thesis by (intro exI[of _ "[Print ?m, Print Ready]"]) auto
    next
      case (Inr cmd)
      from input_Inr[of "print Ready ?w3" cmd w4] i2 Inr t3
      have t4: "trace w4 = trace w @ greeting @ [Input l, Set_hard_mode ?b]
                  @ [Print ?m, Print Ready, Input cmd]"
        by simp
      show ?thesis
      proof (cases "cmd = ''q''")
        case True
        with m Inr have "res = Inr ()" "w' = w4" by simp_all
        with t4 show ?thesis by (intro exI[of _ "[Print ?m, Print Ready, Input cmd]"]) auto
      next
        case False
        show ?thesis
        proof (cases "dictionary env")
          case None
          with m Inr False have "res = Inl FileNotFoundError" "w' = w4"
            by (simp_all add: open_dictionary_def)
          with t4 show ?thesis by (intro exI[of _ "[Print ?m, Print Ready, Input cmd]"]) auto
        next
          case (Some cw)
          with m Inr False have g: "game_loop env cw (emit Open_dictionary w4) = Some (res, w')"
            by (simp add: open_dictionary_def)
          from game_loop_post[OF g] obtain evs where
            5: "trace w' = trace (emit Open_dictionary w4) @ evs" "orderly env evs"
              "\<forall>e. res = Inl e \<longrightarrow> (e = IndexError \<and> cw = []) \<or> input w' = (Inl e, w')"
            by auto
          let ?post = "[Print ?m, Print Ready, Input cmd, Open_dictionary] @ evs"
          have "trace w' = trace w @ greeting @ [Input l, Set_hard_mode ?b] @ ?post"
            using 5(1) t4 by simp
          moreover have "orderly env ?post" using 5(2) by (intro orderly_simps(2)) auto
          moreover have "\<forall>e. res = Inl e \<longrightarrow>
                    e \<in> {EOFError, KeyboardInterrupt, UnicodeDecodeError, RuntimeError,
                          IndexError, FileNotFoundError}"
            using 5(3) input_Inl[of w' _ w'] by auto
          ultimately show ?thesis by blast
        qed
      qed
    qed
    with c0 Inr show ?thesis by auto
  qed
qed

text \<open>
  A loop over the dictionary that never ends draws, again and again, a word that does
  not resolve.
\<close>

lemma random_page_loop_None:
  assumes "random_page_loop env cw None w = None"
  shows "\<exists>word w1. random_choice env cw w = (Inr word, w1) \<and> wiki_get_page env word = None
           \<and> random_page_loop env cw None (emit (Get_page word None) w1) = None"
proof -
  obtain r w1 where rc: "random_choice env cw w = (r, w1)" by (cases "random_choice env cw w")
  show ?thesis
  proof (cases r)
    case (Inl e)
    with rc assms show ?thesis
      by (subst (asm) random_page_loop.simps) (simp add: truthy_page_def)
  next
    case (Inr word)
    show ?thesis
    proof (cases "wiki_get_page env word")
      case None
      with rc Inr assms show ?thesis
        by (subst (asm) random_page_loop.simps) (simp add: truthy_page_def)
    next
      case (Some p)
      have "random_page_loop env cw (Some p) (emit (Get_page word (Some p)) w1)
              = Some (Inr (Some p), emit (Get_page word (Some p)) w1)"
        by (subst random_page_loop.simps) (simp add: truthy_page_def)
      with rc Inr Some assms show ?thesis
        by (subst (asm) random_page_loop.simps) (simp add: truthy_page_def)
    qed
  qed
qed

subsection \<open>Runs that never end\<close>

lemma main_prelude:
  "main env w =
     (case prelude env w of
        (Inl e, w1) \<Rightarrow> Some (Inl e, w1)
      | (Inr None, w1) \<Rightarrow> Some (Inr (), w1)
      | (Inr (Some cw), w1) \<Rightarrow> game_loop env cw w1)"
  by (simp add: main_def prelude_def Let_def split: prod.splits sum.splits)

lemma prelude_post:
  assumes "prelude env w = (Inr (Some cw), w5)"
  shows "\<exists>l post. fst (input w) = Inr l \<and> dictionary env = Some cw
           \<and> trace w5 = trace w @ greeting @ [Input l, Set_hard_mode (strip l = ''2'')] @ post
           \<and> orderly env post \<and> searches post = []"
proof -
  let ?w1 = "print Choose_mode_prompt (print Mode_hard_line (print Mode_normal_line
               (print Modes_header (print Rules (print Welcome w)))))"
  have t1: "trace ?w1 = trace w @ greeting" "stdin ?w1 = stdin w"
    by (simp_all add: greeting_def)
  from input_stdin_cong[OF t1(2)] have same: "fst (input ?w1) = fst (input w)" .
  obtain c0 w2 where i1: "input ?w1 = (c0, w2)" by (cases "input ?w1")
  with same have c0: "fst (input w) = c0" by simp
  from assms i1 obtain l where l: "c0 = Inr l"
    by (cases c0) (auto simp: prelude_def Let_def)
  from input_Inr[of ?w1 l w2] i1 l t1
  have t2: "trace w2 = trace w @ greeting @ [Input l]" by simp
  let ?b = "strip l = ''2''"
  let ?w3 = "if ?b then print Hard_activated (set_hard_mode True w2)
             else print Normal_selected (set_hard_mode False w2)"
  let ?m = "if ?b then Hard_activated else Normal_selected"
  have t3: "trace ?w3 = trace w @ greeting @ [Input l, Set_hard_mode ?b, Print ?m]"
    using t2 by (simp add: set_hard_mode_def)
  obtain c w4 where i2: "input (print Ready ?w3) = (c, w4)"
    by (cases "input (print Ready ?w3)")
  from assms i1 i2 l have m: "(case c of Inl e \<Rightarrow> (Inl e, w4)
      | Inr cmd \<Rightarrow> if cmd = ''q'' then (Inr None, w4)
          else (case open_dictionary env w4 of
                  (Inl e, w5) \<Rightarrow> (Inl e, w5)
                | (Inr common_words, w5) \<Rightarrow> (Inr (Some common_words), w5)))
      = (Inr (Some cw), w5)"
    by (simp add: prelude_def Let_def)
  then obtain cmd where cmd: "c = Inr cmd" "cmd \<noteq> ''q''"
    by (cases c) (auto split: if_splits)
  from input_Inr[of "print Ready ?w3" cmd w4] i2 cmd t3
  have t4: "trace w4 = trace w @ greeting @ [Input l, Set_hard_mode ?b]
              @ [Print ?m, Print Ready, Input cmd]"
    by simp
  from m cmd have d: "dictionary env = Some cw" "w5 = emit Open_dictionary w4"
    by (cases "dictionary env"; simp add: open_dictionary_def)+
  let ?post = "[Print ?m, Print Ready, Input cmd, Open_dictionary]"
  have "trace w5 = trace w @ greeting @ [Input l, Set_hard_mode ?b] @ ?post"
    using t4 d(2) by simp
  moreover have "orderly env ?post" "searches ?post = []" by auto
  ultimately show ?thesis using c0 l d(1) by blast
qed

lemma after_rounds_post:
  "after_rounds env cw n w = Some wr \<Longrightarrow>
     \<exists>evs. trace wr = trace w @ evs \<and> orderly env evs"
proof (induction n arbitrary: w)
  case 0
  then show ?case by (intro exI[of _ "[]"]) simp
next
  case (Suc n)
  from Suc.prems obtain r w1 cmd w2 where
    pr: "play_round env cw w = Some (Inr r, w1)"
    and inp: "input (print Play_again w1) = (Inr cmd, w2)"
    and rest: "after_rounds env cw n w2 = Some wr"
    by (auto split: option.splits sum.splits prod.splits if_splits)
  from play_round_orderly[OF pr] obtain evs1 where
    1: "trace w1 = trace w @ evs1" "orderly env evs1" by blast
  from input_Inr[OF inp] have 2: "trace w2 = trace w1 @ [Print Play_again, Input cmd]" by simp
  from Suc.IH[OF rest] obtain evs2 where
    3: "trace wr = trace w2 @ evs2" "orderly env evs2" by blast
  let ?evs = "evs1 @ [Print Play_again, Input cmd] @ evs2"
  have "trace wr = trace w @ ?evs" using 1(1) 2 3(1) by simp
  moreover have "orderly env ?evs" using 1(2) 3(2) by (intro orderly_simps(2)) simp_all
  ultimately show ?case by blast
qed


lemma loop_entries_post:
  assumes "w1 \<in> set (loop_entries env cw w)"
  shows "\<exists>evs. trace w1 = trace w @ evs \<and> orderly env evs \<and> searches evs = []"
proof (cases "w1 = w")
  case True
  then show ?thesis by (intro exI[of _ "[]"]) simp
next
  case False
  with assms obtain sp w0 p where
    "random_page_loop env cw None w = Some (Inr sp, w0)"
    "show_page Starting_page sp w0 = (Inr p, w1)"
    by (auto simp: loop_entries_def split: option.splits sum.splits prod.splits)
       (metis)
  from random_segment[OF this] show ?thesis by auto
qed

text \<open>A round that never ends has entered a loop over the dictionary that never ends.\<close>

lemma play_round_stuck:
  assumes "play_round env cw w = None"
  shows "\<exists>w1 \<in> set (loop_entries env cw w). random_page_loop env cw None w1 = None"
proof (cases "random_page_loop env cw None w")
  case None
  then show ?thesis by (auto simp: loop_entries_def)
next
  case (Some y1)
  obtain res1 w1 where y1: "y1 = (res1, w1)" by (cases y1)
  show ?thesis
  proof (cases res1)
    case (Inl e)
    with Some y1 assms show ?thesis by (simp add: play_round_def)
  next
    case (Inr sp)
    obtain s1 w2 where sh: "show_page Starting_page sp w1 = (s1, w2)"
      by (cases "show_page Starting_page sp w1")
    show ?thesis
    proof (cases s1)
      case (Inl e)
      with Some y1 Inr sh assms show ?thesis by (simp add: play_round_def)
    next
      case p1: (Inr p1)
      from Some y1 Inr have l1: "random_page_loop env cw None w = Some (Inr sp, w1)" by simp
      from sh p1 have sh1: "show_page Starting_page sp w1 = (Inr p1, w2)" by simp
      from l1 sh1 have mem: "w2 \<in> set (loop_entries env cw w)"
        by (simp add: loop_entries_def)
      show ?thesis
      proof (cases "random_page_loop env cw None w2")
        case None
        with mem show ?thesis by blast
      next
        case some2: (Some y2)
        obtain res2 w3 where y2: "y2 = (res2, w3)" by (cases y2)
        show ?thesis
        proof (cases res2)
          case (Inl e)
          with l1 sh1 some2 y2 assms show ?thesis by (simp add: play_round_def)
        next
          case cp: (Inr cp)
          obtain s2 w4 where sh': "show_page Computers_page cp w3 = (s2, w4)"
            by (cases "show_page Computers_page cp w3")
          show ?thesis
          proof (cases s2)
            case (Inl e)
            with l1 sh1 some2 y2 cp sh' assms show ?thesis by (simp add: play_round_def)
          next
            case p2: (Inr p2)
            from user_page_loop_total[of env None w4] obtain y3 where
              u: "user_page_loop env None w4 = Some y3" by blast
            with l1 sh1 some2 y2 cp sh' p2 assms show ?thesis
              by (cases y3)
                 (auto simp: play_round_def Let_def split: sum.splits prod.splits)
          qed
        qed
      qed
    qed
  qed
qed

text \<open>
  A game that never ends has played some rounds to the end and is then in a round that
  never ends: every round that ends takes its reads from standard input, and the
  input is finite.
\<close>

lemma game_loop_stuck:
  "game_loop env cw w = None \<Longrightarrow>
     \<exists>n wr. after_rounds env cw n w = Some wr \<and> play_round env cw wr = None"
proof (induction "length (stdin w)" arbitrary: w rule: less_induct)
  case less
  show ?case
  proof (cases "play_round env cw w")
    case None
    then show ?thesis by (intro exI[of _ 0] exI[of _ w]) simp
  next
    case (Some y)
    obtain res w1 where y: "y = (res, w1)" by (cases y)
    with Some have pr: "play_round env cw w = Some (res, w1)" by simp
    show ?thesis
    proof (cases res)
      case (Inl e)
      with pr less(2) show ?thesis by (subst (asm) game_loop.simps) simp
    next
      case (Inr r)
      from play_round_Inr[of env cw w r w1] pr Inr
      have len: "length (stdin w1) \<le> length (stdin w)" by blast
      obtain c w2 where inp: "input (print Play_again w1) = (c, w2)"
        by (cases "input (print Play_again w1)")
      show ?thesis
      proof (cases c)
        case (Inl e)
        with inp pr Inr less(2) show ?thesis by (subst (asm) game_loop.simps) simp
      next
        case cmd: (Inr cmd)
        from input_Inr[of "print Play_again w1" cmd w2] inp cmd
        have 2: "stdin w1 = Line cmd # stdin w2" by simp
        show ?thesis
        proof (cases "cmd = ''q''")
          case True
          with inp cmd pr Inr less(2) show ?thesis by (subst (asm) game_loop.simps) simp
        next
          case False
          with inp cmd pr Inr less(2) have g: "game_loop env cw w2 = None"
            by (subst (asm) game_loop.simps) simp
          from 2 len have "length (stdin w2) < length (stdin w)" by simp
          from less(1)[OF this g] obtain n wr where
            3: "after_rounds env cw n w2 = Some wr" "play_round env cw wr = None" by blast
          from pr Inr inp cmd False 3(1) have "after_rounds env cw (Suc n) w = Some wr"
            by simp
          with 3(2) show ?thesis by blast
        qed
      qed
    qed
  qed
qed

text \<open>
  A run of \<^verbatim>\<open>main\<close> that never ends: the prelude has been run, some rounds have been
  played, and the round after them has entered a loop over the dictionary that never
  ends.
\<close>

lemma main_stuck:
  assumes "main env w = None"
  shows "\<exists>cw w5 n wr. prelude env w = (Inr (Some cw), w5)
           \<and> after_rounds env cw n w5 = Some wr
           \<and> (\<exists>w1 \<in> set (loop_entries env cw wr). random_page_loop env cw None w1 = None)"
proof -
  obtain res w5 where p: "prelude env w = (res, w5)" by (cases "prelude env w")
  with assms obtain cw where cw: "res = Inr (Some cw)" "game_loop env cw w5 = None"
    by (auto simp: main_prelude split: sum.splits option.splits)
  from game_loop_stuck[OF cw(2)] obtain n wr where
    "after_rounds env cw n w5 = Some wr" "play_round env cw wr = None" by blast
  with play_round_stuck[of env cw wr] p cw(1) show ?thesis by blast
qed

text \<open>What a run has done when it enters a loop over the dictionary.\<close>

lemma loop_entry_trace:
  assumes "prelude env w = (Inr (Some cw), w5)" "after_rounds env cw n w5 = Some wr"
    "w1 \<in> set (loop_entries env cw wr)"
  shows "\<exists>l post. fst (input w) = Inr l
           \<and> trace w1 = trace w @ greeting @ [Input l, Set_hard_mode (strip l = ''2'')] @ post
           \<and> orderly env post"
proof -
  from prelude_post[OF assms(1)] obtain l post1 where
    1: "fst (input w) = Inr l"
      "trace w5 = trace w @ greeting @ [Input l, Set_hard_mode (strip l = ''2'')] @ post1"
      "orderly env post1" by blast
  from after_rounds_post[OF assms(2)] obtain evs2 where
    2: "trace wr = trace w5 @ evs2" "orderly env evs2" by blast
  from loop_entries_post[OF assms(3)] obtain evs3 where
    3: "trace w1 = trace wr @ evs3" "orderly env evs3" by blast
  let ?post = "post1 @ evs2 @ evs3"
  have "trace w1 = trace w @ greeting @ [Input l, Set_hard_mode (strip l = ''2'')] @ ?post"
    using 1(2) 2(1) 3(1) by simp
  moreover have "orderly env ?post" using 1(3) 2(2) 3(2) by (intro orderly_simps(2))
  ultimately show ?thesis using 1(1) by blast
qed

section \<open>Facts about the path finder\<close>

subsection \<open>Levels and paths\<close>

lemma layer_Suc_iff:
  "v \<in> set (layer g (Suc k) a) \<longleftrightarrow> (\<exists>u \<in> set (layer g k a). v \<in> set (g u))"
  by auto

lemma within_0 [simp]: "within g a 0 = {a}"
  by (simp add: within_def)

lemma within_Suc: "within g a (Suc d) = within g a d \<union> set (layer g (Suc d) a)"
  unfolding within_def atMost_Suc by auto

lemma within_iff: "v \<in> within g a d \<longleftrightarrow> (\<exists>k \<le> d. v \<in> set (layer g k a))"
  by (auto simp: within_def)

lemma start_within: "a \<in> within g a d"
  by (auto simp: within_iff intro: exI[of _ 0])

lemma back_path_nonempty: "back_path g q \<Longrightarrow> q \<noteq> []"
  by (cases q) auto

lemma back_path_layer:
  "back_path g q \<Longrightarrow> last q = a \<Longrightarrow> hd q \<in> set (layer g (length q - 1) a)"
proof (induction g q rule: back_path.induct)
  case (1 g)
  then show ?case by simp
next
  case (2 g v)
  then show ?case by simp
next
  case (3 g v u us)
  then have "u \<in> set (layer g (length us) a)" by simp
  with 3(2) show ?case by auto
qed

lemma is_path_snoc:
  "is_path g (xs @ [u]) \<Longrightarrow> v \<in> set (g u) \<Longrightarrow> is_path g (xs @ [u, v])"
proof (induction xs)
  case Nil
  then show ?case by simp
next
  case (Cons x xs)
  then show ?case by (cases xs) auto
qed

lemma back_path_rev: "back_path g q \<Longrightarrow> is_path g (rev q)"
proof (induction g q rule: back_path.induct)
  case (1 g)
  then show ?case by simp
next
  case (2 g v)
  then show ?case by simp
next
  case (3 g v u us)
  then have ih: "is_path g (rev us @ [u])" and e: "v \<in> set (g u)" by simp_all
  from is_path_snoc[OF ih e] show ?case by simp
qed

lemma back_path_connects:
  assumes "back_path g q" "hd q = b" "last q = a"
  shows "connects g a b (rev q)"
proof -
  from assms(1) have "q \<noteq> []" by (rule back_path_nonempty)
  with assms show ?thesis
    by (simp add: connects_def back_path_rev hd_rev last_rev)
qed

lemma reference_bfs_finds:
  "b \<in> set (layer g (k + n) a) \<Longrightarrow> \<forall>j < n. b \<notin> set (layer g (k + j) a) \<Longrightarrow> n < fuel
     \<Longrightarrow> reference_bfs g a b k fuel = Some (k + n)"
proof (induction n arbitrary: k fuel)
  case 0
  then show ?case by (cases fuel) simp_all
next
  case (Suc n)
  from Suc.prems(3) obtain fuel' where f: "fuel = Suc fuel'" "n < fuel'"
    by (cases fuel) auto
  from Suc.prems(2) have nk: "b \<notin> set (layer g k a)" by (auto dest: spec[of _ 0])
  have "reference_bfs g a b (Suc k) fuel' = Some (Suc k + n)"
  proof (rule Suc.IH)
    show "b \<in> set (layer g (Suc k + n) a)" using Suc.prems(1) by simp
    show "\<forall>j < n. b \<notin> set (layer g (Suc k + j) a)"
      using Suc.prems(2) by (auto dest: spec[of _ "Suc _"])
    show "n < fuel'" by (rule f(2))
  qed
  with nk f show ?case by simp
qed

subsection \<open>The walk back\<close>

lemma walk_back_start [simp]: "walk_back pred a a = Some [a]"
  by (subst walk_back.simps) simp

lemma walk_back_step:
  "t \<noteq> a \<Longrightarrow> pred t = Some u \<Longrightarrow> walk_back pred a u = Some q
     \<Longrightarrow> walk_back pred a t = Some (t # q)"
  by (subst walk_back.simps) simp

lemma walk_back_cases:
  assumes "walk_back pred a t = Some q"
  shows "(t = a \<and> q = [a])
       \<or> (t \<noteq> a \<and> (\<exists>u q'. pred t = Some u \<and> walk_back pred a u = Some q' \<and> q = t # q'))"
  using assms
  by (subst (asm) walk_back.simps) (auto split: if_splits option.splits bind_splits)

lemma walk_back_update:
  "walk_back pred a t = Some q \<Longrightarrow> v \<notin> set q \<Longrightarrow> walk_back (pred(v \<mapsto> u)) a t = Some q"
proof (induction q arbitrary: t)
  case Nil
  with walk_back_cases[OF Nil(1)] show ?case by auto
next
  case (Cons x q)
  from walk_back_cases[OF Cons.prems(1)] show ?case
  proof (elim disjE conjE exE)
    assume "t = a" "x # q = [a]"
    then show ?thesis by simp
  next
    fix u' q'
    assume t: "t \<noteq> a" "pred t = Some u'" "walk_back pred a u' = Some q'" "x # q = t # q'"
    from t(4) have qq: "q = q'" "x = t" by simp_all
    with Cons.prems(2) have "v \<noteq> t" "v \<notin> set q" by auto
    from Cons.IH[of u'] t(3) \<open>v \<notin> set q\<close> qq(1)
    have "walk_back (pred(v \<mapsto> u)) a u' = Some q'" by blast
    moreover have "(pred(v \<mapsto> u)) t = Some u'" using \<open>v \<noteq> t\<close> t(2) by simp
    ultimately have "walk_back (pred(v \<mapsto> u)) a t = Some (t # q')"
      using t(1) by (intro walk_back_step)
    then show ?thesis unfolding t(4) .
  qed
qed

subsection \<open>The invariant\<close>

text \<open>The state after a new title \<open>v\<close> has been discovered from \<open>u\<close>.\<close>

lemma trail_add_old:
  assumes "trail g a s k x" "v \<notin> visited s"
  shows "trail g a (s\<lparr>visited := insert v (visited s),
                       predecessor := (predecessor s)(v \<mapsto> u),
                       next_frontier := next_frontier s @ [v]\<rparr>) k x"
proof -
  from assms(1) obtain q where
    q: "walk_back (predecessor s) a x = Some q" "length q = Suc k" "back_path g q"
      "hd q = x" "last q = a" "set q \<subseteq> visited s"
    unfolding trail_def by blast
  from q(6) assms(2) have "v \<notin> set q" by auto
  from walk_back_update[OF q(1) this]
  have "walk_back ((predecessor s)(v \<mapsto> u)) a x = Some q" .
  with q show ?thesis unfolding trail_def by auto
qed

lemma trail_add_new:
  assumes "trail g a s k u" "v \<notin> visited s" "v \<in> set (g u)" "a \<in> visited s"
  shows "trail g a (s\<lparr>visited := insert v (visited s),
                       predecessor := (predecessor s)(v \<mapsto> u),
                       next_frontier := next_frontier s @ [v]\<rparr>) (Suc k) v"
proof -
  from assms(1) obtain q where
    q: "walk_back (predecessor s) a u = Some q" "length q = Suc k" "back_path g q"
      "hd q = u" "last q = a" "set q \<subseteq> visited s"
    unfolding trail_def by blast
  from q(6) assms(2) have "v \<notin> set q" by auto
  from walk_back_update[OF q(1) this]
  have w: "walk_back ((predecessor s)(v \<mapsto> u)) a u = Some q" .
  from assms(2,4) have "v \<noteq> a" by auto
  then have "walk_back ((predecessor s)(v \<mapsto> u)) a v = Some (v # q)"
    by (rule walk_back_step[OF _ _ w]) simp
  moreover from q(2,3) obtain y ys where "q = y # ys" by (cases q) auto
  with q(3,4,5) assms(3) have "back_path g (v # q)" "last (v # q) = a" by auto
  ultimately show ?thesis using q(2,6) unfolding trail_def by auto
qed

lemma bfs_inv_start_visited: "bfs_inv g a b d todo s \<Longrightarrow> a \<in> visited s"
  unfolding bfs_inv_def using start_within[of a g d] by blast

lemma bfs_inv_add:
  assumes inv: "bfs_inv g a b d todo s"
    and u: "u \<in> set todo" and v: "v \<in> set (g u)" "v \<notin> visited s" "v \<noteq> b"
  shows "bfs_inv g a b d todo (s\<lparr>visited := insert v (visited s),
                                 predecessor := (predecessor s)(v \<mapsto> u),
                                 next_frontier := next_frontier s @ [v]\<rparr>)"
    (is "bfs_inv g a b d todo ?s'")
proof -
  from inv have
    ab: "a \<noteq> b" "b \<notin> visited s"
    and i2: "within g a d \<subseteq> visited s"
    and i3: "set (next_frontier s) \<inter> within g a d = {}"
    and i5: "\<forall>u \<in> visited s. u \<notin> set todo \<longrightarrow> u \<notin> set (next_frontier s)
            \<longrightarrow> set (g u) \<subseteq> visited s"
    and w1: "\<forall>x \<in> set todo. trail g a s d x"
    and w2: "\<forall>x \<in> set (next_frontier s). trail g a s (Suc d) x"
    unfolding bfs_inv_def by blast+
  have a: "a \<in> visited s" using inv by (rule bfs_inv_start_visited)
  have "b \<notin> visited ?s'" using ab(2) v(3) by simp
  moreover have "within g a d \<subseteq> visited ?s'" using i2 by auto
  moreover have "set (next_frontier ?s') \<inter> within g a d = {}"
    using i3 i2 v(2) by auto
  moreover have "\<forall>x \<in> visited ?s'. x \<notin> set todo \<longrightarrow> x \<notin> set (next_frontier ?s')
            \<longrightarrow> set (g x) \<subseteq> visited ?s'"
    using i5 by auto
  moreover have "\<forall>x \<in> set todo. trail g a ?s' d x"
    using w1 trail_add_old[OF _ v(2)] by blast
  moreover have "\<forall>x \<in> set (next_frontier ?s'). trail g a ?s' (Suc d) x"
  proof
    fix x assume "x \<in> set (next_frontier ?s')"
    then consider "x \<in> set (next_frontier s)" | "x = v" by auto
    then show "trail g a ?s' (Suc d) x"
    proof cases
      case 1
      with w2 trail_add_old[OF _ v(2)] show ?thesis by blast
    next
      case 2
      from w1 u have "trail g a s d u" by blast
      from trail_add_new[OF this v(2) v(1) a] 2 show ?thesis by simp
    qed
  qed
  ultimately show ?thesis using ab(1) unfolding bfs_inv_def by blast
qed

text \<open>The target is discovered from \<open>u\<close>: the walk back gives a shortest path.\<close>

lemma bfs_inv_found:
  assumes inv: "bfs_inv g a b d todo s"
    and u: "u \<in> set todo" and v: "b \<in> set (g u)" "b \<notin> visited s"
  shows "\<exists>q. walk_back ((predecessor s)(b \<mapsto> u)) a b = Some q \<and> length q = d + 2
             \<and> shortest g a b (rev q)"
proof -
  from inv have i2: "within g a d \<subseteq> visited s"
    and w1: "\<forall>x \<in> set todo. trail g a s d x"
    unfolding bfs_inv_def by blast+
  have a: "a \<in> visited s" using inv by (rule bfs_inv_start_visited)
  from w1 u have "trail g a s d u" by blast
  from trail_add_new[OF this v(2) v(1) a] obtain q where
    q: "walk_back ((predecessor s)(b \<mapsto> u)) a b = Some q" "length q = Suc (Suc d)"
      "back_path g q" "hd q = b" "last q = a"
    unfolding trail_def by auto
  from back_path_connects[OF q(3,4,5)] have c: "connects g a b (rev q)" .
  from back_path_layer[OF q(3,5)] q(2,4) have l: "b \<in> set (layer g (Suc d) a)" by simp
  have "\<forall>k < Suc d. b \<notin> set (layer g k a)"
  proof (intro allI impI)
    fix k assume "k < Suc d"
    then have "set (layer g k a) \<subseteq> within g a d"
      by (auto simp: within_iff intro!: exI[of _ k])
    with i2 v(2) show "b \<notin> set (layer g k a)" by auto
  qed
  with c l q(2) have "shortest g a b (rev q)" by (simp add: shortest_def)
  with q(1,2) show ?thesis by auto
qed

text \<open>The scan of the edges of one title of the frontier.\<close>

lemma discover_visited_mono:
  "discover b u es s = (found, s') \<Longrightarrow> visited s \<subseteq> visited s'"
proof (induction es arbitrary: s)
  case Nil
  then show ?case by simp
next
  case (Cons v vs)
  show ?case
  proof (cases "v \<in> visited s")
    case True
    with Cons show ?thesis by simp
  next
    case False
    let ?s1 = "s\<lparr>visited := insert v (visited s),
                 predecessor := (predecessor s)(v \<mapsto> u),
                 next_frontier := next_frontier s @ [v]\<rparr>"
    show ?thesis
    proof (cases "v = b")
      case True
      with False Cons.prems show ?thesis by (auto simp: Let_def)
    next
      case nb: False
      with False Cons.prems have "discover b u vs ?s1 = (found, s')"
        by (simp add: Let_def)
      from Cons.IH[OF this] show ?thesis by auto
    qed
  qed
qed

lemma discover_inv:
  assumes "bfs_inv g a b d todo s" "u \<in> set todo" "set es \<subseteq> set (g u)"
    "discover b u es s = (found, s')"
  shows "(\<not> found \<longrightarrow> bfs_inv g a b d todo s' \<and> set es \<subseteq> visited s')
       \<and> (found \<longrightarrow> (\<exists>q. walk_back (predecessor s') a b = Some q \<and> length q = d + 2
                           \<and> shortest g a b (rev q)))"
  using assms
proof (induction es arbitrary: s)
  case Nil
  then show ?case by simp
next
  case (Cons v vs)
  show ?case
  proof (cases "v \<in> visited s")
    case True
    with Cons.prems(4) have "discover b u vs s = (found, s')" by simp
    from Cons.IH[OF Cons.prems(1,2) _ this] Cons.prems(3)
    have ih: "(\<not> found \<longrightarrow> bfs_inv g a b d todo s' \<and> set vs \<subseteq> visited s')
       \<and> (found \<longrightarrow> (\<exists>q. walk_back (predecessor s') a b = Some q \<and> length q = d + 2
                           \<and> shortest g a b (rev q)))"
      by simp
    have mono: "\<not> found \<longrightarrow> v \<in> visited s'"
      using True discover_visited_mono[OF \<open>discover b u vs s = (found, s')\<close>] by auto
    with ih show ?thesis by simp
  next
    case False
    let ?s1 = "s\<lparr>visited := insert v (visited s),
                 predecessor := (predecessor s)(v \<mapsto> u),
                 next_frontier := next_frontier s @ [v]\<rparr>"
    from Cons.prems(3) have vg: "v \<in> set (g u)" "set vs \<subseteq> set (g u)" by simp_all
    show ?thesis
    proof (cases "v = b")
      case True
      with False Cons.prems(4) have f: "found" "s' = ?s1" by (simp_all add: Let_def)
      from vg(1) False True have "b \<in> set (g u)" "b \<notin> visited s" by simp_all
      from bfs_inv_found[OF Cons.prems(1,2) this] obtain q where
        q: "walk_back ((predecessor s)(b \<mapsto> u)) a b = Some q" "length q = d + 2"
          "shortest g a b (rev q)" by blast
      have "predecessor s' = (predecessor s)(b \<mapsto> u)"
        unfolding f(2) True by simp
      with q have "\<exists>q. walk_back (predecessor s') a b = Some q \<and> length q = d + 2
                           \<and> shortest g a b (rev q)" by metis
      with f(1) show ?thesis by blast
    next
      case nb: False
      with False Cons.prems(4) have r: "discover b u vs ?s1 = (found, s')"
        by (simp add: Let_def)
      from bfs_inv_add[OF Cons.prems(1,2) vg(1) False nb]
      have inv1: "bfs_inv g a b d todo ?s1" .
      from Cons.IH[OF inv1 Cons.prems(2) vg(2) r]
      have ih: "(\<not> found \<longrightarrow> bfs_inv g a b d todo s' \<and> set vs \<subseteq> visited s')
       \<and> (found \<longrightarrow> (\<exists>q. walk_back (predecessor s') a b = Some q \<and> length q = d + 2
                           \<and> shortest g a b (rev q)))" .
      have mono: "\<not> found \<longrightarrow> v \<in> visited s'"
        using discover_visited_mono[OF r] by auto
      with ih show ?thesis by simp
    qed
  qed
qed

subsection \<open>The search as a whole\<close>

lemma trail_next_frontier [simp]:
  "trail g a (s\<lparr>next_frontier := nf\<rparr>) k v = trail g a s k v"
  by (simp add: trail_def)

lemma bfs_inv_init:
  "a \<noteq> b \<Longrightarrow>
     bfs_inv g a b 0 [a] \<lparr>visited = {a}, predecessor = Map.empty, next_frontier = []\<rparr>"
  by (simp add: bfs_inv_def trail_def)

lemma bfs_inv_next_round:
  assumes "bfs_inv g a b d [] s"
  shows "bfs_inv g a b (Suc d) (next_frontier s) (s\<lparr>next_frontier := []\<rparr>)"
proof -
  from assms have
    ab: "a \<noteq> b" "b \<notin> visited s"
    and i2: "within g a d \<subseteq> visited s"
    and i3: "set (next_frontier s) \<inter> within g a d = {}"
    and i5: "\<forall>u \<in> visited s. u \<notin> set (next_frontier s) \<longrightarrow> set (g u) \<subseteq> visited s"
    and w2: "\<forall>x \<in> set (next_frontier s). trail g a s (Suc d) x"
    unfolding bfs_inv_def by simp_all
  have "set (layer g (Suc d) a) \<subseteq> visited s"
  proof
    fix v assume "v \<in> set (layer g (Suc d) a)"
    then obtain u where u: "u \<in> set (layer g d a)" "v \<in> set (g u)"
      unfolding layer_Suc_iff by blast
    from u(1) have "u \<in> within g a d" by (auto simp: within_iff)
    with i2 i3 have "u \<in> visited s" "u \<notin> set (next_frontier s)" by auto
    with i5 u(2) show "v \<in> visited s" by blast
  qed
  with i2 have "within g a (Suc d) \<subseteq> visited s" by (simp add: within_Suc)
  with ab i5 w2 show ?thesis unfolding bfs_inv_def by simp
qed

lemma bfs_inv_done:
  assumes "bfs_inv g a b d (u # rest) s" "set (g u) \<subseteq> visited s"
  shows "bfs_inv g a b d rest s"
  using assms unfolding bfs_inv_def by auto

lemma bfs_inv_exhausted:
  assumes "bfs_inv g a b d [] s" "next_frontier s = []"
  shows "b \<notin> set (layer g k a)"
proof -
  from assms have b: "b \<notin> visited s"
    and cl: "\<forall>u \<in> visited s. set (g u) \<subseteq> visited s"
    unfolding bfs_inv_def by simp_all
  have a: "a \<in> visited s" using assms(1) by (rule bfs_inv_start_visited)
  have "set (layer g k a) \<subseteq> visited s"
  proof (induction k)
    case 0
    with a show ?case by simp
  next
    case (Suc k)
    with cl show ?case by auto
  qed
  with b show ?thesis by auto
qed

lemma bfs_correct:
  "bfs_inv (expand resolve hard) a b d frontier s \<Longrightarrow> d \<le> n \<Longrightarrow> (frontier = [] \<longrightarrow> d < n) \<Longrightarrow>
     \<exists>r m. bfs resolve hard cap a b frontier s n = Some (r, m) \<and> n \<le> m \<and> m \<le> max cap n
        \<and> (\<forall>p. r = Path p \<longrightarrow> shortest (expand resolve hard) a b p \<and> length p \<le> m + 1)
        \<and> (r = NotConnected \<longrightarrow> m < cap \<longrightarrow> (\<forall>k. b \<notin> set (layer (expand resolve hard) k a)))"
proof (induction resolve hard cap a b frontier s n arbitrary: d rule: bfs.induct)
  case (1 resolve hard cap start target frontier s expanded)
  let ?g = "expand resolve hard"
  note inv = "1.prems"(1)
  show ?case
  proof (cases frontier)
    case Nil
    show ?thesis
    proof (cases "next_frontier s = []")
      case True
      with Nil have "bfs resolve hard cap start target frontier s expanded
                       = Some (NotConnected, expanded)"
        by (subst bfs.simps) simp
      moreover from inv Nil True have "\<forall>k. target \<notin> set (layer ?g k start)"
        using bfs_inv_exhausted by blast
      ultimately show ?thesis by simp
    next
      case False
      with Nil have eq: "bfs resolve hard cap start target frontier s expanded
                       = bfs resolve hard cap start target (next_frontier s)
                           (s\<lparr>next_frontier := []\<rparr>) expanded"
        by (subst bfs.simps) simp
      from inv Nil have "bfs_inv ?g start target (Suc d) (next_frontier s) (s\<lparr>next_frontier := []\<rparr>)"
        using bfs_inv_next_round by blast
      moreover from "1.prems"(3) Nil have "Suc d \<le> expanded" by simp
      ultimately show ?thesis
        using "1.IH"(1)[OF Nil False, of "Suc d"] False eq by simp
    qed
  next
    case (Cons u rest)
    show ?thesis
    proof (cases "cap \<le> expanded")
      case True
      with Cons have "bfs resolve hard cap start target frontier s expanded
                       = Some (NotConnected, expanded)"
        by (subst bfs.simps) simp
      with True show ?thesis by simp
    next
      case False
      obtain found s' where disc: "discover target u (?g u) s = (found, s')"
        by (cases "discover target u (?g u) s")
      from inv Cons have inv': "bfs_inv ?g start target d (u # rest) s" by simp
      from discover_inv[OF inv' _ _ disc] have
        di: "\<not> found \<longrightarrow> bfs_inv ?g start target d (u # rest) s' \<and> set (?g u) \<subseteq> visited s'"
          "found \<longrightarrow> (\<exists>q. walk_back (predecessor s') start target = Some q \<and> length q = d + 2
                           \<and> shortest ?g start target (rev q))"
        by simp_all
      show ?thesis
      proof (cases found)
        case True
        with di(2) obtain q where
          q: "walk_back (predecessor s') start target = Some q" "length q = d + 2"
            "shortest ?g start target (rev q)" by blast
        from Cons False disc True q(1)
        have "bfs resolve hard cap start target frontier s expanded
                = Some (Path (rev q), Suc expanded)"
          by (subst bfs.simps) (simp add: reconstruct_def)
        with q(2,3) "1.prems"(2) False show ?thesis by simp
      next
        case nf: False
        with di(1) have "bfs_inv ?g start target d rest s'"
          using bfs_inv_done by blast
        from "1.IH"(2)[OF Cons False disc[symmetric] _ this, of ] nf "1.prems"(2)
        obtain r m where
          rm: "bfs resolve hard cap start target rest s' (Suc expanded) = Some (r, m)"
            "Suc expanded \<le> m" "m \<le> max cap (Suc expanded)"
            "\<forall>p. r = Path p \<longrightarrow> shortest ?g start target p \<and> length p \<le> m + 1"
            "r = NotConnected \<longrightarrow> m < cap \<longrightarrow> (\<forall>k. target \<notin> set (layer ?g k start))"
          by auto
        from Cons False disc nf
        have "bfs resolve hard cap start target frontier s expanded
                = bfs resolve hard cap start target rest s' (Suc expanded)"
          by (subst bfs.simps) simp
        with rm False show ?thesis by auto
      qed
    qed
  qed
qed

text \<open>The search from its first state.\<close>

lemma search_cases:
  "\<exists>r m. search resolve hard cap start target = Some (r, m) \<and> m \<le> cap
     \<and> (\<forall>p. r = Path p \<longrightarrow>
           p \<noteq> [] \<and> length p \<le> m + 1
         \<and> (identifier start \<noteq> identifier target \<longrightarrow>
               shortest (expand resolve hard) (identifier start) (identifier target) p)
         \<and> (identifier start = identifier target \<longrightarrow> p = [title start] \<and> m = 0))
     \<and> (r = NotConnected \<longrightarrow>
           identifier start \<noteq> identifier target
         \<and> (m < cap \<longrightarrow>
               (\<forall>k. identifier target
                      \<notin> set (layer (expand resolve hard) k (identifier start)))))"
proof (cases "identifier start = identifier target")
  case True
  then show ?thesis by (simp add: search_def)
next
  case False
  let ?g = "expand resolve hard"
  let ?s0 = "\<lparr>visited = {identifier start}, predecessor = Map.empty, next_frontier = []\<rparr>"
  from bfs_correct[OF bfs_inv_init[OF False, of ?g], of 0 cap]
  obtain r m where
    rm: "bfs resolve hard cap (identifier start) (identifier target) [identifier start] ?s0 0
           = Some (r, m)"
      "m \<le> cap"
      "\<forall>p. r = Path p \<longrightarrow>
         shortest ?g (identifier start) (identifier target) p \<and> length p \<le> m + 1"
      "r = NotConnected \<longrightarrow> m < cap \<longrightarrow>
         (\<forall>k. identifier target \<notin> set (layer ?g k (identifier start)))"
    by auto
  have "p \<noteq> []" if "shortest ?g (identifier start) (identifier target) p" for p
    using that by (auto simp: shortest_def connects_def)
  with rm False show ?thesis by (auto simp: search_def)
qed

subsection \<open>Running the game in the small world\<close>

lemma new_events_append: "trace w' = trace w @ evs \<Longrightarrow> new_events w w' = evs"
  by (simp add: new_events_def)

text \<open>The definitions unfold to the result of the run.\<close>

lemmas demo_defs =
  demo_env_def demo_words_def demo_world_def demo_round_def demo_world_after_def
  demo_page_def demo_env_repeat_def demo_world_repeat_def demo_game_world_def
  demo_game_round_def demo_game_world_after_def demo_world_short_def
  demo_world_short_after_def demo_world_empty_def demo_world_greeted_def
  demo_world_user_def demo_world_short_user_def demo_world_drawn_def demo_world_asked_def
  demo_world_interrupted_def demo_world_interrupted_after_def demo_long_page_def
  demo_env_long_def demo_world_long_after_def demo_env_stuck_def
  demo_world_started_def demo_world_long_started_def demo_world_ready_def
  demo_world_second_def greeting_def

lemmas run_defs =
  play_round_def main_def random_page_loop.simps user_page_loop.simps game_loop.simps
  random_choice_def input_def emit_def print_def truthy_page_def truthy_path_def
  show_page_def report_path_def announce_def open_dictionary_def set_hard_mode_def
  strip_def isspace_def Let_def

lemma demo_round_run:
  "play_round demo_env demo_words demo_world = Some (Inr demo_round, demo_world_after)"
  by (simp add: demo_defs run_defs)

lemma demo_repeat_run:
  "random_page_loop demo_env_repeat demo_words None demo_world_empty
     = Some (Inr (Some (demo_page ''Egg'')), demo_world_repeat)"
  by (simp add: demo_defs run_defs)

lemma demo_user_run:
  "user_page_loop demo_env None demo_world
     = Some (Inr (Some (demo_page ''Toast'')), demo_world_user)"
  by (simp add: demo_defs run_defs)

lemma demo_short_run:
  "play_round demo_env demo_words demo_world_short = Some (Inl EOFError, demo_world_short_after)"
  by (simp add: demo_defs run_defs)

lemma demo_empty_run:
  "main demo_env demo_world_empty = Some (Inl EOFError, demo_world_greeted)"
  by (simp add: demo_defs run_defs)

lemma demo_game_run:
  "main demo_env demo_game_world = Some (Inr (), demo_game_world_after)"
  by (simp add: demo_defs run_defs)

lemma demo_long_run:
  "play_round demo_env_long demo_words demo_world_empty
     = Some (Inl EOFError, demo_world_long_after)"
  by (simp add: demo_defs run_defs)

lemma demo_interrupted_run:
  "user_page_loop demo_env None demo_world_interrupted
     = Some (Inl KeyboardInterrupt, demo_world_interrupted_after)"
  by (simp add: demo_defs run_defs)

text \<open>A dictionary of which no word resolves keeps the loop turning for ever.\<close>

lemma random_page_loop_stuck_aux:
  "random_page_loop env cw pg w = Some y \<Longrightarrow>
     (\<forall>word \<in> set cw. wiki_get_page env word = None) \<Longrightarrow> pg = None \<Longrightarrow> cw = []"
proof (induction rule: random_page_loop_induct)
  case (step loop env cw pg w y)
  obtain r w1 where rc: "random_choice env cw w = (r, w1)" by (cases "random_choice env cw w")
  show ?case
  proof (cases r)
    case (Inl e)
    with rc random_choice_Inl[of env cw w e w1] show ?thesis by simp
  next
    case (Inr word)
    with rc random_choice_Inr[of env cw w word w1] have "word \<in> set cw" by simp
    with step(3) have n: "wiki_get_page env word = None" by simp
    with rc Inr step(2,4) have "loop env cw None (emit (Get_page word None) w1) = Some y"
      by (simp add: truthy_page_def)
    from step(1)[OF this step(3)] show ?thesis by simp
  qed
qed

lemma random_page_loop_stuck:
  assumes "\<forall>word \<in> set cw. wiki_get_page env word = None" "cw \<noteq> []"
  shows "random_page_loop env cw None w = None"
proof (cases "random_page_loop env cw None w")
  case None
  then show ?thesis .
next
  case (Some y)
  from random_page_loop_stuck_aux[OF Some assms(1)] assms(2) show ?thesis by simp
qed

lemma demo_stuck_loop: "random_page_loop demo_env_stuck demo_words None w = None"
  by (rule random_page_loop_stuck) (simp_all add: demo_env_stuck_def demo_words_def)

lemma demo_stuck_round: "play_round demo_env_stuck demo_words w = None"
  by (simp add: play_round_def demo_stuck_loop)


section \<open>The claims about the game loop\<close>



text \<open>
  C9, as the code has it. A round that runs to its end calls \<^verbatim>\<open>find_short_path\<close>
  exactly twice: first with the start page and the computer's page, then with the start
  page and the user's page. Both calls come after the three retry loops. So a round
  that an exception cuts short has not called it: the exception is the \<^verbatim>\<open>IndexError\<close>
  of \<^verbatim>\<open>random.choice\<close> on an empty dictionary, or the one that \<^verbatim>\<open>input()\<close> raises in the
  world the round stops in. A round that never ends has entered one of its two loops
  over the dictionary, and that loop never ends; on entering either loop the round has
  made no call yet, and each turn of a loop that never ends only draws a word and asks
  for its page.
\<close>

theorem round_searches:
  "(play_round env cw w = Some (Inr r, w') \<longrightarrow>
      trace w' = trace w @ new_events w w'
    \<and> searches (new_events w w') =
        [Find_short_path (start_page r) (computer_page r) (computer_path r),
         Find_short_path (start_page r) (user_page r) (user_path r)])
   \<and> (play_round env cw w = Some (Inl e, w') \<longrightarrow>
        trace w' = trace w @ new_events w w' \<and> searches (new_events w w') = []
      \<and> ((e = IndexError \<and> cw = []) \<or> input w' = (Inl e, w')))
   \<and> (play_round env cw w = None \<longrightarrow>
        (\<exists>w1 \<in> set (loop_entries env cw w). random_page_loop env cw None w1 = None))
   \<and> (w1 \<in> set (loop_entries env cw w) \<longrightarrow>
        trace w1 = trace w @ new_events w w1 \<and> searches (new_events w w1) = [])
   \<and> (random_page_loop env cw None w = None \<longrightarrow>
        (\<exists>word w2. random_choice env cw w = (Inr word, w2) \<and> wiki_get_page env word = None
            \<and> new_events w (emit (Get_page word None) w2) = [Choice word, Get_page word None]
            \<and> random_page_loop env cw None (emit (Get_page word None) w2) = None))"
proof -
  have 1: "trace w' = trace w @ new_events w w'
    \<and> searches (new_events w w') =
        [Find_short_path (start_page r) (computer_page r) (computer_path r),
         Find_short_path (start_page r) (user_page r) (user_path r)]"
    if run: "play_round env cw w = Some (Inr r, w')"
  proof -
    from play_round_Inr[OF run] obtain evs1 evs2 evs3 where
      tr: "trace w' = trace w @ round_events r evs1 evs2 evs3"
      and evs: "list_all loop_event evs1" "list_all loop_event evs2" "list_all loop_event evs3"
        "resolved evs1 = [start_page r]" "resolved evs2 = [computer_page r]"
        "resolved evs3 = [user_page r]"
      by blast
    from new_events_append[OF tr] have ne: "new_events w w' = round_events r evs1 evs2 evs3" .
    with tr round_events_quiet(2)[OF evs] show ?thesis by simp
  qed
  have 2: "trace w' = trace w @ new_events w w' \<and> searches (new_events w w') = []
      \<and> ((e = IndexError \<and> cw = []) \<or> input w' = (Inl e, w'))"
    if err: "play_round env cw w = Some (Inl e, w')"
  proof -
    from play_round_Inl[OF err] obtain evs where
      tr: "trace w' = trace w @ evs" and s: "searches evs = []"
      and ex: "(e = IndexError \<and> cw = []) \<or> input w' = (Inl e, w')" by blast
    from new_events_append[OF tr] tr s ex show ?thesis by simp
  qed
  have 3: "\<exists>w1 \<in> set (loop_entries env cw w). random_page_loop env cw None w1 = None"
    if hang: "play_round env cw w = None"
    using play_round_stuck[OF hang] .
  have 4: "trace w1 = trace w @ new_events w w1 \<and> searches (new_events w w1) = []"
    if "w1 \<in> set (loop_entries env cw w)"
  proof -
    from loop_entries_post[OF that] obtain evs where
      tr: "trace w1 = trace w @ evs" and s: "searches evs = []" by blast
    from new_events_append[OF tr] tr s show ?thesis by simp
  qed
  have 5: "\<exists>word w2. random_choice env cw w = (Inr word, w2) \<and> wiki_get_page env word = None
            \<and> new_events w (emit (Get_page word None) w2) = [Choice word, Get_page word None]
            \<and> random_page_loop env cw None (emit (Get_page word None) w2) = None"
    if hang: "random_page_loop env cw None w = None"
  proof -
    from random_page_loop_None[OF hang] obtain word w2 where
      rc: "random_choice env cw w = (Inr word, w2)" and n: "wiki_get_page env word = None"
      and l: "random_page_loop env cw None (emit (Get_page word None) w2) = None" by blast
    from random_choice_Inr[OF rc]
    have "trace (emit (Get_page word None) w2) = trace w @ [Choice word, Get_page word None]"
      by simp
    from new_events_append[OF this] rc n l show ?thesis by blast
  qed
  show ?thesis
    by (intro conjI; (rule impI, (erule 1 | erule 2 | erule 3 | erule 4 | erule 5)))
qed

theorem round_searches_witness:
  "play_round demo_env demo_words demo_world = Some (Inr demo_round, demo_world_after)
   \<and> searches (new_events demo_world demo_world_after) =
       [Find_short_path (demo_page ''Egg'') (demo_page ''Bacon'') None,
        Find_short_path (demo_page ''Egg'') (demo_page ''Toast'') (Some [''Egg'', ''Toast''])]
   \<and> play_round demo_env demo_words demo_world_short
       = Some (Inl EOFError, demo_world_short_after)
   \<and> searches (new_events demo_world_short demo_world_short_after) = []
   \<and> input demo_world_short_after = (Inl EOFError, demo_world_short_after)
   \<and> play_round demo_env_stuck demo_words demo_world_empty = None
   \<and> loop_entries demo_env_stuck demo_words demo_world_empty = [demo_world_empty]
   \<and> loop_entries demo_env demo_words demo_world_short = [demo_world_short, demo_world_started]
   \<and> searches (new_events demo_world_short demo_world_started) = []
   \<and> random_page_loop demo_env_stuck demo_words None demo_world_empty = None
   \<and> random_page_loop demo_env_stuck demo_words None demo_world_drawn = None"
proof -
  from round_searches[of demo_env demo_words demo_world demo_round demo_world_after]
    demo_round_run
  have 1: "searches (new_events demo_world demo_world_after) =
       [Find_short_path (demo_page ''Egg'') (demo_page ''Bacon'') None,
        Find_short_path (demo_page ''Egg'') (demo_page ''Toast'') (Some [''Egg'', ''Toast''])]"
    by (simp add: demo_round_def)
  from round_searches[of demo_env demo_words demo_world_short demo_round
         demo_world_short_after EOFError]
    demo_short_run
  have 2: "searches (new_events demo_world_short demo_world_short_after) = []"
    "input demo_world_short_after = (Inl EOFError, demo_world_short_after)"
    by simp_all
  have le: "loop_entries demo_env_stuck demo_words demo_world_empty = [demo_world_empty]"
    by (simp add: loop_entries_def demo_stuck_loop)
  have le2: "loop_entries demo_env demo_words demo_world_short
               = [demo_world_short, demo_world_started]"
    by (simp add: loop_entries_def demo_defs run_defs)
  from round_searches[of demo_env demo_words demo_world_short demo_round
         demo_world_short_after EOFError demo_world_started]
    le2
  have 3: "searches (new_events demo_world_short demo_world_started) = []"
    by simp
  have c: "random_choice demo_env_stuck demo_words demo_world_empty
             = (Inr ''Nowhere'', demo_world_empty\<lparr>draws := 1, trace := [Choice ''Nowhere'']\<rparr>)"
    by (simp add: random_choice_def demo_env_stuck_def demo_env_def demo_words_def
          demo_world_empty_def emit_def Let_def)
  have e: "emit (Get_page ''Nowhere'' None)
             (demo_world_empty\<lparr>draws := 1, trace := [Choice ''Nowhere'']\<rparr>) = demo_world_drawn"
    by (simp add: emit_def demo_world_empty_def demo_world_drawn_def)
  from round_searches[of demo_env_stuck demo_words demo_world_empty demo_round
         demo_world_empty EOFError demo_world_empty]
    demo_stuck_loop[of demo_world_empty] c e
  have 4: "random_page_loop demo_env_stuck demo_words None demo_world_drawn = None"
    by auto
  show ?thesis
    using 1 2 3 4 le le2 demo_round_run demo_short_run demo_stuck_round
      demo_stuck_loop[of demo_world_empty]
    by simp
qed

text \<open>
  C9 as stated fails for a round that does not run to its end: in the round below the
  input ends while the user is asked for a page, and the round stops with \<^verbatim>\<open>EOFError\<close>
  having made no call of \<^verbatim>\<open>find_short_path\<close>.
\<close>

theorem round_without_search_counterexample:
  "play_round demo_env demo_words demo_world_short = Some (Inl EOFError, demo_world_short_after)
   \<and> searches (new_events demo_world_short demo_world_short_after) = []
   \<and> length (searches (new_events demo_world_short demo_world_short_after)) \<noteq> 2"
  using demo_short_run
  by (simp add: new_events_def demo_world_short_def demo_world_short_after_def)

text \<open>
  C8. Every page that the game displays is displayed by the same two lines: the title,
  and the first 500 characters of the page's \<^verbatim>\<open>summary\<close> (all of it when it has at most
  500) between the fixed texts of the message. In every round, whether it runs to its
  end or an exception cuts it short, and in every run of \<^verbatim>\<open>main\<close> that ends, the titles
  and summaries displayed are those of the pages that \<^verbatim>\<open>get_page\<close> returned, in the
  order in which it returned them. A round or a run that never ends has entered a loop
  over the dictionary that never ends, and the same holds for what it has displayed on
  entering that loop; a loop over the dictionary displays nothing.
  The pages are values that nothing modifies: a round that runs to its end hands the
  three pages it resolved on to the searches as they are.
\<close>

theorem displayed_summaries:
  "(show_page label pg w = (Inr p, w') \<longrightarrow>
      pg = Some p
    \<and> new_events w w' = [Print (label (title p)), Print (Summary_line (take 500 (summary p)))]
    \<and> length (take 500 (summary p)) = min 500 (length (summary p))
    \<and> (length (summary p) \<le> 500 \<longrightarrow> take 500 (summary p) = summary p))
   \<and> (play_round env cw w = Some (res, w') \<or> main env w = Some (res', w') \<longrightarrow>
        trace w' = trace w @ new_events w w'
      \<and> summaries_shown (new_events w w')
          = map (\<lambda>p. take 500 (summary p)) (resolved (new_events w w'))
      \<and> titles_shown (new_events w w') = map title (resolved (new_events w w'))
      \<and> (\<forall>p \<in> set (resolved (new_events w w')). \<exists>n. wiki_get_page env n = Some p))
   \<and> (play_round env cw w = Some (Inr r, w') \<longrightarrow>
        resolved (new_events w w') = [start_page r, computer_page r, user_page r]
      \<and> searches (new_events w w') =
          [Find_short_path (start_page r) (computer_page r) (computer_path r),
           Find_short_path (start_page r) (user_page r) (user_path r)])
   \<and> (play_round env cw w = None \<longrightarrow>
        (\<exists>w2 \<in> set (loop_entries env cw w). random_page_loop env cw None w2 = None))
   \<and> (main env w = None \<longrightarrow>
        (\<exists>cw0 w0 k wk. prelude env w = (Inr (Some cw0), w0)
            \<and> after_rounds env cw0 k w0 = Some wk
            \<and> (\<exists>w2 \<in> set (loop_entries env cw0 wk).
                  random_page_loop env cw0 None w2 = None)))
   \<and> (w1 \<in> set (loop_entries env cw w)
        \<or> (prelude env w = (Inr (Some cw'), w5) \<and> after_rounds env cw' n w5 = Some wr
            \<and> w1 \<in> set (loop_entries env cw' wr)) \<longrightarrow>
        trace w1 = trace w @ new_events w w1
      \<and> summaries_shown (new_events w w1)
          = map (\<lambda>p. take 500 (summary p)) (resolved (new_events w w1))
      \<and> titles_shown (new_events w w1) = map title (resolved (new_events w w1))
      \<and> (\<forall>p \<in> set (resolved (new_events w w1)). \<exists>n. wiki_get_page env n = Some p))
   \<and> (random_page_loop env cw None w = None \<longrightarrow>
        (\<exists>word w2. random_choice env cw w = (Inr word, w2) \<and> wiki_get_page env word = None
            \<and> new_events w (emit (Get_page word None) w2) = [Choice word, Get_page word None]
            \<and> random_page_loop env cw None (emit (Get_page word None) w2) = None))"
proof -
  have ord: "trace w2 = trace w @ new_events w w2
      \<and> summaries_shown (new_events w w2)
          = map (\<lambda>p. take 500 (summary p)) (resolved (new_events w w2))
      \<and> titles_shown (new_events w w2) = map title (resolved (new_events w w2))
      \<and> (\<forall>p \<in> set (resolved (new_events w w2)). \<exists>n. wiki_get_page env n = Some p)"
    if "trace w2 = trace w @ pre @ evs" "orderly env evs"
      "pre = [] \<or> (\<exists>l b. pre = greeting @ [Input l, Set_hard_mode b])" for w2 pre evs
  proof -
    from that(3) have pre: "summaries_shown pre = []" "titles_shown pre = []"
      "resolved pre = []" by auto
    from new_events_append[of w2 w "pre @ evs"] that(1)
    have ne: "new_events w w2 = pre @ evs" by simp
    from that(2) have "shown_as_resolved evs" "answered_by env evs"
      by (simp_all add: orderly_def)
    with pre ne that(1) answered_by_resolved[of env evs] show ?thesis
      by (simp add: shown_as_resolved_def)
  qed
  have 1: "pg = Some p
    \<and> new_events w w' = [Print (label (title p)), Print (Summary_line (take 500 (summary p)))]
    \<and> length (take 500 (summary p)) = min 500 (length (summary p))
    \<and> (length (summary p) \<le> 500 \<longrightarrow> take 500 (summary p) = summary p)"
    if "show_page label pg w = (Inr p, w')"
    using show_page_Inr[OF that] by (simp add: new_events_def page_events_def min_def)
  have 2: "trace w' = trace w @ new_events w w'
      \<and> summaries_shown (new_events w w')
          = map (\<lambda>p. take 500 (summary p)) (resolved (new_events w w'))
      \<and> titles_shown (new_events w w') = map title (resolved (new_events w w'))
      \<and> (\<forall>p \<in> set (resolved (new_events w w')). \<exists>n. wiki_get_page env n = Some p)"
    if run: "play_round env cw w = Some (res, w') \<or> main env w = Some (res', w')"
    using run
  proof
    assume "play_round env cw w = Some (res, w')"
    from play_round_orderly[OF this] obtain evs where
      "trace w' = trace w @ evs" "orderly env evs" by auto
    with ord[of w' "[]" evs] show ?thesis by simp
  next
    assume m: "main env w = Some (res', w')"
    show ?thesis
    proof (cases "fst (input w)")
      case (Inl e)
      with main_post[OF m] have "trace w' = trace w @ greeting" by simp
      moreover have "orderly env greeting" by (simp add: orderly_def shown_as_resolved_def)
      ultimately show ?thesis using ord[of w' "[]" greeting] by simp
    next
      case (Inr l)
      with main_post[OF m] obtain post where
        "trace w' = trace w @ (greeting @ [Input l, Set_hard_mode (strip l = ''2'')]) @ post"
        "orderly env post" by auto
      with ord[of w' "greeting @ [Input l, Set_hard_mode (strip l = ''2'')]" post]
      show ?thesis by blast
    qed
  qed
  have 3: "resolved (new_events w w') = [start_page r, computer_page r, user_page r]
      \<and> searches (new_events w w') =
          [Find_short_path (start_page r) (computer_page r) (computer_path r),
           Find_short_path (start_page r) (user_page r) (user_path r)]"
    if run: "play_round env cw w = Some (Inr r, w')"
  proof -
    from play_round_Inr[OF run] obtain evs1 evs2 evs3 where
      tr: "trace w' = trace w @ round_events r evs1 evs2 evs3"
      and evs: "list_all loop_event evs1" "list_all loop_event evs2" "list_all loop_event evs3"
        "resolved evs1 = [start_page r]" "resolved evs2 = [computer_page r]"
        "resolved evs3 = [user_page r]"
      by blast
    from new_events_append[OF tr] round_events_quiet(2,3)[OF evs] show ?thesis by simp
  qed
  have 4: "\<exists>w2 \<in> set (loop_entries env cw w). random_page_loop env cw None w2 = None"
    if hang: "play_round env cw w = None"
    using play_round_stuck[OF hang] .
  have 5: "\<exists>cw0 w0 k wk. prelude env w = (Inr (Some cw0), w0)
            \<and> after_rounds env cw0 k w0 = Some wk
            \<and> (\<exists>w2 \<in> set (loop_entries env cw0 wk).
                  random_page_loop env cw0 None w2 = None)"
    if hang: "main env w = None"
    using main_stuck[OF hang] .
  have 6: "trace w1 = trace w @ new_events w w1
      \<and> summaries_shown (new_events w w1)
          = map (\<lambda>p. take 500 (summary p)) (resolved (new_events w w1))
      \<and> titles_shown (new_events w w1) = map title (resolved (new_events w w1))
      \<and> (\<forall>p \<in> set (resolved (new_events w w1)). \<exists>n. wiki_get_page env n = Some p)"
    if at: "w1 \<in> set (loop_entries env cw w)
        \<or> (prelude env w = (Inr (Some cw'), w5) \<and> after_rounds env cw' n w5 = Some wr
            \<and> w1 \<in> set (loop_entries env cw' wr))"
    using at
  proof
    assume "w1 \<in> set (loop_entries env cw w)"
    from loop_entries_post[OF this] obtain evs where
      "trace w1 = trace w @ evs" "orderly env evs" by blast
    with ord[of w1 "[]" evs] show ?thesis by simp
  next
    assume "prelude env w = (Inr (Some cw'), w5) \<and> after_rounds env cw' n w5 = Some wr
            \<and> w1 \<in> set (loop_entries env cw' wr)"
    then have "prelude env w = (Inr (Some cw'), w5)" "after_rounds env cw' n w5 = Some wr"
      "w1 \<in> set (loop_entries env cw' wr)" by simp_all
    from loop_entry_trace[OF this] obtain l post where
      "trace w1 = trace w @ (greeting @ [Input l, Set_hard_mode (strip l = ''2'')]) @ post"
      "orderly env post" by auto
    with ord[of w1 "greeting @ [Input l, Set_hard_mode (strip l = ''2'')]" post]
    show ?thesis by blast
  qed
  have 7: "\<exists>word w2. random_choice env cw w = (Inr word, w2) \<and> wiki_get_page env word = None
            \<and> new_events w (emit (Get_page word None) w2) = [Choice word, Get_page word None]
            \<and> random_page_loop env cw None (emit (Get_page word None) w2) = None"
    if hang: "random_page_loop env cw None w = None"
  proof -
    from random_page_loop_None[OF hang] obtain word w2 where
      rc: "random_choice env cw w = (Inr word, w2)" and n: "wiki_get_page env word = None"
      and l: "random_page_loop env cw None (emit (Get_page word None) w2) = None" by blast
    from random_choice_Inr[OF rc]
    have "trace (emit (Get_page word None) w2) = trace w @ [Choice word, Get_page word None]"
      by simp
    from new_events_append[OF this] rc n l show ?thesis by blast
  qed
  show ?thesis
    by (intro conjI;
        (rule impI, (erule 1 | erule 2 | erule 3 | erule 4 | erule 5 | erule 6 | erule 7)))
qed

theorem displayed_summaries_witness:
  "play_round demo_env_long demo_words demo_world_empty
     = Some (Inl EOFError, demo_world_long_after)
   \<and> resolved (new_events demo_world_empty demo_world_long_after)
       = [demo_long_page ''Nowhere'', demo_long_page ''Egg'']
   \<and> length (summary (demo_long_page ''Nowhere'')) = 600
   \<and> summaries_shown (new_events demo_world_empty demo_world_long_after)
       = [replicate 500 (CHR ''x''), replicate 500 (CHR ''x'')]
   \<and> play_round demo_env demo_words demo_world = Some (Inr demo_round, demo_world_after)
   \<and> summaries_shown (new_events demo_world demo_world_after)
       = [''About Egg'', ''About Bacon'', ''About Toast'']
   \<and> main demo_env demo_game_world = Some (Inr (), demo_game_world_after)
   \<and> summaries_shown (new_events demo_game_world demo_game_world_after)
       = [''About Egg'', ''About Bacon'', ''About Toast'',
          ''About Egg'', ''About Bacon'', ''About Toast'']
   \<and> show_page Your_page (Some (demo_long_page ''Egg'')) demo_world_empty
       = (Inr (demo_long_page ''Egg''),
          demo_world_empty\<lparr>trace := [Print (Your_page ''Egg''),
                                      Print (Summary_line (replicate 500 (CHR ''x'')))]\<rparr>)
   \<and> length (take 500 (summary (demo_long_page ''Egg''))) = 500
   \<and> take 500 (summary (demo_page ''Egg'')) = ''About Egg''
   \<and> loop_entries demo_env_long demo_words demo_world_empty
       = [demo_world_empty, demo_world_long_started]
   \<and> summaries_shown (new_events demo_world_empty demo_world_long_started)
       = [replicate 500 (CHR ''x'')]"
proof -
  have r1: "resolved (new_events demo_world_empty demo_world_long_after)
       = [demo_long_page ''Nowhere'', demo_long_page ''Egg'']"
    by (simp add: new_events_def demo_world_empty_def demo_world_long_after_def)
  have len: "length (summary (demo_long_page ''Nowhere'')) = 600"
    by (simp add: demo_long_page_def)
  from displayed_summaries
         [of Starting_page None demo_world_empty "demo_long_page ''Egg''" demo_world_long_after
             demo_env_long demo_words "Inl EOFError" "Inr ()" demo_round]
    demo_long_run r1
  have 1: "summaries_shown (new_events demo_world_empty demo_world_long_after)
       = [replicate 500 (CHR ''x''), replicate 500 (CHR ''x'')]"
    by (simp add: demo_long_page_def)
  have r2: "resolved (new_events demo_world demo_world_after)
       = [demo_page ''Egg'', demo_page ''Bacon'', demo_page ''Toast'']"
    by (simp add: new_events_def demo_world_def demo_world_after_def)
  from displayed_summaries
         [of Starting_page None demo_world "demo_page ''Egg''" demo_world_after
             demo_env demo_words "Inr demo_round" "Inr ()" demo_round]
    demo_round_run r2
  have 2: "summaries_shown (new_events demo_world demo_world_after)
       = [''About Egg'', ''About Bacon'', ''About Toast'']"
    by (simp add: demo_page_def)
  have r3: "resolved (new_events demo_game_world demo_game_world_after)
       = [demo_page ''Egg'', demo_page ''Bacon'', demo_page ''Toast'',
          demo_page ''Egg'', demo_page ''Bacon'', demo_page ''Toast'']"
    by (simp add: new_events_def demo_game_world_def demo_game_world_after_def
          demo_game_round_def)
  from displayed_summaries
         [of Starting_page None demo_game_world "demo_page ''Egg''" demo_game_world_after
             demo_env demo_words "Inr demo_round" "Inr ()" demo_round]
    demo_game_run r3
  have 3: "summaries_shown (new_events demo_game_world demo_game_world_after)
       = [''About Egg'', ''About Bacon'', ''About Toast'',
          ''About Egg'', ''About Bacon'', ''About Toast'']"
    by (simp add: demo_page_def)
  have sp: "show_page Your_page (Some (demo_long_page ''Egg'')) demo_world_empty
       = (Inr (demo_long_page ''Egg''),
          demo_world_empty\<lparr>trace := [Print (Your_page ''Egg''),
                                      Print (Summary_line (replicate 500 (CHR ''x'')))]\<rparr>)"
    by (simp add: show_page_def print_def emit_def demo_long_page_def demo_world_empty_def)
  from displayed_summaries
         [of Your_page "Some (demo_long_page ''Egg'')" demo_world_empty "demo_long_page ''Egg''"
             "demo_world_empty\<lparr>trace := [Print (Your_page ''Egg''),
                                         Print (Summary_line (replicate 500 (CHR ''x'')))]\<rparr>"
             demo_env_long demo_words "Inl EOFError" "Inr ()" demo_round]
    sp len
  have 4: "length (take 500 (summary (demo_long_page ''Egg''))) = 500"
    by (simp add: demo_long_page_def)
  from displayed_summaries
         [of Your_page "Some (demo_page ''Egg'')" demo_world_empty "demo_page ''Egg''"
             "demo_world_empty\<lparr>trace := [Print (Your_page ''Egg''),
                                         Print (Summary_line ''About Egg'')]\<rparr>"
             demo_env demo_words "Inl EOFError" "Inr ()" demo_round]
  have 5: "take 500 (summary (demo_page ''Egg'')) = ''About Egg''"
    by (simp add: show_page_def print_def emit_def demo_page_def demo_world_empty_def)
  have le: "loop_entries demo_env_long demo_words demo_world_empty
       = [demo_world_empty, demo_world_long_started]"
    by (simp add: loop_entries_def demo_defs run_defs)
  have r4: "resolved (new_events demo_world_empty demo_world_long_started)
       = [demo_long_page ''Nowhere'']"
    by (simp add: new_events_def demo_world_empty_def demo_world_long_started_def)
  from displayed_summaries
         [of Your_page None demo_world_empty "demo_page ''Egg''" demo_world_empty
             demo_env_long demo_words "Inl EOFError" "Inr ()" demo_round
             demo_world_long_started]
    le r4
  have 6: "summaries_shown (new_events demo_world_empty demo_world_long_started)
       = [replicate 500 (CHR ''x'')]"
    by (simp add: demo_long_page_def)
  show ?thesis
    using r1 len 1 2 3 4 5 6 sp le demo_long_run demo_round_run demo_game_run
    by simp
qed

text \<open>
  C10. Each retry loop ends only with its variable holding a page, so the reads of
  \<^verbatim>\<open>.title\<close> and \<^verbatim>\<open>.summary\<close> that follow never meet \<^verbatim>\<open>None\<close>: no round and no game
  ends with \<^verbatim>\<open>AttributeError\<close>.
\<close>

theorem pages_resolved_before_use:
  "(random_page_loop env cw pg w = Some (Inr pg', w1) \<longrightarrow> pg' \<noteq> None)
   \<and> (user_page_loop env pg w = Some (Inr pg', w1) \<longrightarrow> pg' \<noteq> None)
   \<and> (play_round env cw w = Some (Inl e, w') \<longrightarrow> e \<noteq> AttributeError)
   \<and> (main env w = Some (Inl e, w') \<longrightarrow> e \<noteq> AttributeError)"
proof (intro conjI impI)
  assume "random_page_loop env cw pg w = Some (Inr pg', w1)"
  then show "pg' \<noteq> None" by (rule random_page_loop_Inr)
next
  assume "user_page_loop env pg w = Some (Inr pg', w1)"
  then show "pg' \<noteq> None" by (rule user_page_loop_Inr)
next
  assume "play_round env cw w = Some (Inl e, w')"
  from play_round_Inl[OF this] input_Inl[of w' e w'] show "e \<noteq> AttributeError" by auto
next
  assume "main env w = Some (Inl e, w')"
  from main_post[OF this] show "e \<noteq> AttributeError" by auto
qed

theorem pages_resolved_before_use_witness:
  "random_page_loop demo_env_repeat demo_words None demo_world_empty
     = Some (Inr (Some (demo_page ''Egg'')), demo_world_repeat)
   \<and> user_page_loop demo_env None demo_world
     = Some (Inr (Some (demo_page ''Toast'')), demo_world_user)
   \<and> play_round demo_env demo_words demo_world_short
     = Some (Inl EOFError, demo_world_short_after)
   \<and> main demo_env demo_world_empty = Some (Inl EOFError, demo_world_greeted)
   \<and> Some (demo_page ''Egg'') \<noteq> None \<and> EOFError \<noteq> AttributeError"
  using pages_resolved_before_use
          [of demo_env_repeat demo_words None demo_world_empty "Some (demo_page ''Egg'')"
              demo_world_repeat]
        pages_resolved_before_use
          [of demo_env demo_words None demo_world_short "Some (demo_page ''Toast'')"
              demo_world_user EOFError demo_world_short_after]
        demo_repeat_run demo_user_run demo_short_run demo_empty_run
  by simp

text \<open>
  C7, as the code has it. When \<^verbatim>\<open>get_page\<close> returns NotFound the loop runs its body
  again from the world it has reached: a new word is drawn, or a new line is read after
  the message that the page could not be found; when the name resolves the loop ends
  with that page. The name tried next is whatever is drawn or typed, and may be the
  one that just failed. NotFound itself raises nothing, and \<^verbatim>\<open>main.py\<close> has no handler
  for any exception: what \<^verbatim>\<open>random.choice\<close> raises, \<^verbatim>\<open>IndexError\<close> on an empty
  dictionary, and what \<^verbatim>\<open>input()\<close> raises ends the loop and the round. With
  \<^verbatim>\<open>get_page\<close> and \<^verbatim>\<open>print\<close> taken as calls that return, as the model takes them, these
  are the exceptions a retry loop can end with: \<^verbatim>\<open>IndexError\<close> before any call of
  \<^verbatim>\<open>get_page\<close>, or the exception that \<^verbatim>\<open>input()\<close> raises in the world where the loop
  stops.
\<close>

theorem retry_on_not_found:
  "(random_choice env cw w = (Inr word, w1) \<longrightarrow>
      (wiki_get_page env word = None \<longrightarrow>
         random_page_loop env cw None w
           = random_page_loop env cw None (emit (Get_page word None) w1))
    \<and> (\<forall>p. wiki_get_page env word = Some p \<longrightarrow>
         random_page_loop env cw None w
           = Some (Inr (Some p), emit (Get_page word (Some p)) w1)))
   \<and> (input (print Ask_user_page w) = (Inr name, w2) \<longrightarrow>
      (wiki_get_page env name = None \<longrightarrow>
         user_page_loop env None w
           = user_page_loop env None
               (print (Could_not_find name) (emit (Get_page name None) w2)))
    \<and> (\<forall>p. wiki_get_page env name = Some p \<longrightarrow>
         user_page_loop env None w
           = Some (Inr (Some p), emit (Get_page name (Some p)) w2)))
   \<and> (random_choice env cw w = (Inl e, w1) \<longrightarrow>
        random_page_loop env cw None w = Some (Inl e, w1))
   \<and> (input (print Ask_user_page w) = (Inl e, w2) \<longrightarrow>
        user_page_loop env None w = Some (Inl e, w2))
   \<and> (random_page_loop env cw pg w = Some (Inl e, w') \<longrightarrow>
        e = IndexError \<and> cw = [] \<and> trace w' = trace w)
   \<and> (user_page_loop env pg w = Some (Inl e, w') \<longrightarrow> input w' = (Inl e, w'))
   \<and> (play_round env cw w = Some (Inl e, w') \<longrightarrow>
        (e = IndexError \<and> cw = []) \<or> input w' = (Inl e, w'))"
proof -
  have 1: "(wiki_get_page env word = None \<longrightarrow>
         random_page_loop env cw None w
           = random_page_loop env cw None (emit (Get_page word None) w1))
    \<and> (\<forall>p. wiki_get_page env word = Some p \<longrightarrow>
         random_page_loop env cw None w
           = Some (Inr (Some p), emit (Get_page word (Some p)) w1))"
    if "random_choice env cw w = (Inr word, w1)"
  proof -
    have "random_page_loop env cw (Some p) w3 = Some (Inr (Some p), w3)" for p w3
      by (subst random_page_loop.simps) (simp add: truthy_page_def)
    with that show ?thesis
      by (subst (1 3) random_page_loop.simps) (simp add: truthy_page_def)
  qed
  have 2: "(wiki_get_page env name = None \<longrightarrow>
         user_page_loop env None w
           = user_page_loop env None
               (print (Could_not_find name) (emit (Get_page name None) w2)))
    \<and> (\<forall>p. wiki_get_page env name = Some p \<longrightarrow>
         user_page_loop env None w
           = Some (Inr (Some p), emit (Get_page name (Some p)) w2))"
    if "input (print Ask_user_page w) = (Inr name, w2)"
  proof -
    have "user_page_loop env (Some p) w3 = Some (Inr (Some p), w3)" for p w3
      by (subst user_page_loop.simps) (simp add: truthy_page_def)
    with that show ?thesis
      by (subst (1 3) user_page_loop.simps) (simp add: truthy_page_def Let_def)
  qed
  have 3: "random_page_loop env cw None w = Some (Inl e, w1)"
    if "random_choice env cw w = (Inl e, w1)"
    using that by (subst random_page_loop.simps) (simp add: truthy_page_def)
  have 4: "user_page_loop env None w = Some (Inl e, w2)"
    if "input (print Ask_user_page w) = (Inl e, w2)"
    using that by (subst user_page_loop.simps) (simp add: truthy_page_def)
  have 5: "e = IndexError \<and> cw = [] \<and> trace w' = trace w"
    if "random_page_loop env cw pg w = Some (Inl e, w')"
    using random_page_loop_Inl[OF that] .
  have 6: "input w' = (Inl e, w')" if "user_page_loop env pg w = Some (Inl e, w')"
    using user_page_loop_Inl[OF that] .
  have 7: "(e = IndexError \<and> cw = []) \<or> input w' = (Inl e, w')"
    if "play_round env cw w = Some (Inl e, w')"
    using play_round_Inl[OF that] by blast
  show ?thesis
    by (intro conjI;
        (rule impI, (erule 1 | erule 2 | erule 3 | erule 4 | erule 5 | erule 6 | erule 7)))
qed

theorem retry_on_not_found_witness:
  "random_page_loop demo_env demo_words None demo_world_empty
       = random_page_loop demo_env demo_words None demo_world_drawn
   \<and> user_page_loop demo_env None demo_world_short
       = user_page_loop demo_env None demo_world_asked
   \<and> user_page_loop demo_env None demo_world_asked
       = Some (Inl EOFError, demo_world_short_user)
   \<and> input demo_world_short_user = (Inl EOFError, demo_world_short_user)
   \<and> user_page_loop demo_env None demo_world_interrupted
       = Some (Inl KeyboardInterrupt, demo_world_interrupted_after)
   \<and> input demo_world_interrupted_after = (Inl KeyboardInterrupt, demo_world_interrupted_after)
   \<and> random_page_loop demo_env [] None demo_world_empty = Some (Inl IndexError, demo_world_empty)
   \<and> play_round demo_env demo_words demo_world_short
       = Some (Inl EOFError, demo_world_short_after)
   \<and> input demo_world_short_after = (Inl EOFError, demo_world_short_after)
   \<and> random_page_loop demo_env demo_words None demo_world_drawn
       = Some (Inr (Some (demo_page ''Egg'')),
               demo_world_drawn\<lparr>draws := 2,
                 trace := [Choice ''Nowhere'', Get_page ''Nowhere'' None, Choice ''Egg'',
                           Get_page ''Egg'' (Some (demo_page ''Egg''))]\<rparr>)
   \<and> user_page_loop demo_env None (demo_world_asked\<lparr>stdin := [Line ''Toast'']\<rparr>)
       = Some (Inr (Some (demo_page ''Toast'')), demo_world_user)"
proof -
  have g: "wiki_get_page demo_env ''Nowhere'' = None" by (simp add: demo_env_def)
  have ge: "wiki_get_page demo_env ''Egg'' = Some (demo_page ''Egg'')"
    "wiki_get_page demo_env ''Toast'' = Some (demo_page ''Toast'')"
    by (simp_all add: demo_env_def)
  have c2: "random_choice demo_env demo_words demo_world_drawn
             = (Inr ''Egg'',
                demo_world_drawn\<lparr>draws := 2,
                  trace := [Choice ''Nowhere'', Get_page ''Nowhere'' None, Choice ''Egg'']\<rparr>)"
    by (simp add: random_choice_def demo_env_def demo_words_def demo_world_drawn_def emit_def
          Let_def)
  have i2: "input (print Ask_user_page (demo_world_asked\<lparr>stdin := [Line ''Toast'']\<rparr>))
             = (Inr ''Toast'',
                demo_world_asked\<lparr>stdin := [],
                  trace := [Print Ask_user_page, Input ''Nowhere'', Get_page ''Nowhere'' None,
                            Print (Could_not_find ''Nowhere''), Print Ask_user_page,
                            Input ''Toast'']\<rparr>)"
    by (simp add: input_def print_def emit_def demo_world_asked_def)
  have c: "random_choice demo_env demo_words demo_world_empty
             = (Inr ''Nowhere'', demo_world_empty\<lparr>draws := 1, trace := [Choice ''Nowhere'']\<rparr>)"
    by (simp add: random_choice_def demo_env_def demo_words_def demo_world_empty_def emit_def
          Let_def)
  have i: "input (print Ask_user_page demo_world_short)
             = (Inr ''Nowhere'',
                demo_world_short\<lparr>stdin := [], trace := [Print Ask_user_page, Input ''Nowhere'']\<rparr>)"
    by (simp add: input_def print_def emit_def demo_world_short_def)
  have d: "emit (Get_page ''Nowhere'' None)
             (demo_world_empty\<lparr>draws := 1, trace := [Choice ''Nowhere'']\<rparr>) = demo_world_drawn"
    by (simp add: emit_def demo_world_empty_def demo_world_drawn_def)
  have a: "print (Could_not_find ''Nowhere'') (emit (Get_page ''Nowhere'' None)
             (demo_world_short\<lparr>stdin := [], trace := [Print Ask_user_page, Input ''Nowhere'']\<rparr>))
           = demo_world_asked"
    by (simp add: print_def emit_def demo_world_short_def demo_world_asked_def)
  have ie: "input (print Ask_user_page demo_world_asked) = (Inl EOFError, demo_world_short_user)"
    by (simp add: input_def print_def emit_def demo_world_asked_def demo_world_short_user_def)
  have ce: "random_choice demo_env [] demo_world_empty = (Inl IndexError, demo_world_empty)"
    by (simp add: random_choice_def)
  from retry_on_not_found
         [of demo_env demo_words demo_world_empty "''Nowhere''"
             "demo_world_empty\<lparr>draws := 1, trace := [Choice ''Nowhere'']\<rparr>"
             "''Nowhere''"
             "demo_world_short\<lparr>stdin := [], trace := [Print Ask_user_page, Input ''Nowhere'']\<rparr>"
             IndexError None demo_world_empty]
       g c d
  have 1: "random_page_loop demo_env demo_words None demo_world_empty
       = random_page_loop demo_env demo_words None demo_world_drawn"
    by simp
  from retry_on_not_found
         [of demo_env demo_words demo_world_short "''Nowhere''" demo_world_empty "''Nowhere''"
             "demo_world_short\<lparr>stdin := [], trace := [Print Ask_user_page, Input ''Nowhere'']\<rparr>"
             EOFError None demo_world_short_after]
       g i a demo_short_run
  have 2: "user_page_loop demo_env None demo_world_short
       = user_page_loop demo_env None demo_world_asked"
    "input demo_world_short_after = (Inl EOFError, demo_world_short_after)"
    by simp_all
  from retry_on_not_found
         [of demo_env demo_words demo_world_asked "''Nowhere''" demo_world_empty "''Nowhere''"
             demo_world_short_user EOFError None demo_world_short_user]
       ie
  have 3: "user_page_loop demo_env None demo_world_asked
       = Some (Inl EOFError, demo_world_short_user)"
    "input demo_world_short_user = (Inl EOFError, demo_world_short_user)"
    by simp_all
  from retry_on_not_found
         [of demo_env demo_words demo_world_interrupted "''Nowhere''" demo_world_empty
             "''Nowhere''" demo_world_empty KeyboardInterrupt None
             demo_world_interrupted_after]
       demo_interrupted_run
  have 4: "input demo_world_interrupted_after
             = (Inl KeyboardInterrupt, demo_world_interrupted_after)"
    by simp
  from retry_on_not_found
         [of demo_env "[]" demo_world_empty "''Nowhere''" demo_world_empty "''Nowhere''"
             demo_world_empty IndexError None demo_world_empty]
       ce
  have 5: "random_page_loop demo_env [] None demo_world_empty
             = Some (Inl IndexError, demo_world_empty)"
    by simp
  from retry_on_not_found
         [of demo_env demo_words demo_world_drawn "''Egg''"
             "demo_world_drawn\<lparr>draws := 2,
                trace := [Choice ''Nowhere'', Get_page ''Nowhere'' None, Choice ''Egg'']\<rparr>"
             "''Nowhere''" demo_world_empty IndexError None demo_world_empty]
       c2 ge(1)
  have 6: "random_page_loop demo_env demo_words None demo_world_drawn
       = Some (Inr (Some (demo_page ''Egg'')),
               demo_world_drawn\<lparr>draws := 2,
                 trace := [Choice ''Nowhere'', Get_page ''Nowhere'' None, Choice ''Egg'',
                           Get_page ''Egg'' (Some (demo_page ''Egg''))]\<rparr>)"
    by (simp add: emit_def demo_world_drawn_def)
  from retry_on_not_found
         [of demo_env demo_words "demo_world_asked\<lparr>stdin := [Line ''Toast'']\<rparr>" "''Egg''"
             demo_world_empty "''Toast''"
             "demo_world_asked\<lparr>stdin := [],
                trace := [Print Ask_user_page, Input ''Nowhere'', Get_page ''Nowhere'' None,
                          Print (Could_not_find ''Nowhere''), Print Ask_user_page,
                          Input ''Toast'']\<rparr>"
             IndexError None demo_world_empty]
       i2 ge(2)
  have 7: "user_page_loop demo_env None (demo_world_asked\<lparr>stdin := [Line ''Toast'']\<rparr>)
       = Some (Inr (Some (demo_page ''Toast'')), demo_world_user)"
    by (simp add: emit_def demo_world_asked_def demo_world_user_def)
  show ?thesis using 1 2 3 4 5 6 7 demo_short_run demo_interrupted_run by simp
qed

text \<open>
  C7 as stated fails: in the run below the first word drawn does not resolve and the
  loop tries the same word again.
\<close>

theorem retry_same_name_counterexample:
  "random_page_loop demo_env_repeat demo_words None demo_world_empty
     = Some (Inr (Some (demo_page ''Egg'')), demo_world_repeat)
   \<and> filter is_get_page (trace demo_world_repeat)
       = [Get_page ''Nowhere'' None, Get_page ''Nowhere'' None,
          Get_page ''Egg'' (Some (demo_page ''Egg''))]
   \<and> \<not> retries_differ (filter is_get_page (trace demo_world_repeat))"
  using demo_repeat_run by (simp add: demo_world_repeat_def)




section \<open>The claims about the path finder\<close>

lemmas search_defs =
  search_def find_short_path_def bfs.simps expand_def edge_set_def reconstruct_def
  walk_back.simps demo_wiki_def demo_wiki_page_def demo_A_def demo_D_def
  demo_A_redirect_def Let_def

lemma demo_search_hard:
  "search demo_wiki True 10 demo_A demo_D = Some (Path [''A'', ''C'', ''D''], 3)"
  by (simp add: search_defs)

lemma demo_search_normal:
  "search demo_wiki False 10 demo_A demo_D = Some (Path [''A'', ''D''], 1)"
  by (simp add: search_defs)

lemma demo_search_capped:
  "search demo_wiki True 2 demo_A demo_D = Some (NotConnected, 2)"
  by (simp add: search_defs)

text \<open>
  C3. A search whose start and target have the same identifier returns the sequence of
  the one title, without expanding any title.
\<close>

theorem self_path:
  assumes "identifier start = identifier target"
  shows "find_short_path resolve hard cap start target = Some (Path [title start])
       \<and> search resolve hard cap start target = Some (Path [title start], 0)"
  using assms by (simp add: find_short_path_def search_def)

theorem self_path_witness:
  "identifier demo_A_redirect = identifier demo_A
   \<and> find_short_path demo_wiki True 0 demo_A_redirect demo_A = Some (Path [''A (letter)''])
   \<and> find_short_path demo_wiki False 10 demo_D demo_D = Some (Path [''D''])"
proof -
  have i: "identifier demo_A_redirect = identifier demo_A" "identifier demo_D = identifier demo_D"
    by (simp_all add: demo_A_redirect_def)
  from self_path[OF i(1), of demo_wiki True 0] self_path[OF i(2), of demo_wiki False 10] i
  show ?thesis by (simp add: demo_A_redirect_def demo_D_def demo_wiki_page_def)
qed

text \<open>
  C2. The search always ends, and it has then expanded at most as many titles as the
  effort cap allows; a returned path has at most as many hops as titles were expanded.
  So when the target is not within \<open>cap\<close> hops of the start the result is NotConnected,
  whether or not a path exists deeper in the graph.
\<close>

theorem search_is_bounded:
  "(\<exists>r m. search resolve hard cap start target = Some (r, m)
        \<and> find_short_path resolve hard cap start target = Some r
        \<and> m \<le> cap \<and> (\<forall>p. r = Path p \<longrightarrow> length p - 1 \<le> m))
   \<and> ((\<forall>k \<le> cap. identifier target
                    \<notin> set (layer (expand resolve hard) k (identifier start)))
        \<longrightarrow> find_short_path resolve hard cap start target = Some NotConnected)"
proof -
  let ?g = "expand resolve hard"
  from search_cases[of resolve hard cap start target] obtain r m where
    rm: "search resolve hard cap start target = Some (r, m)" "m \<le> cap"
      "\<forall>p. r = Path p \<longrightarrow>
           p \<noteq> [] \<and> length p \<le> m + 1
         \<and> (identifier start \<noteq> identifier target \<longrightarrow>
               shortest ?g (identifier start) (identifier target) p)
         \<and> (identifier start = identifier target \<longrightarrow> p = [title start] \<and> m = 0)"
    by blast
  from rm(1) have f: "find_short_path resolve hard cap start target = Some r"
    by (simp add: find_short_path_def)
  have hops: "\<forall>p. r = Path p \<longrightarrow> length p - 1 \<le> m" using rm(3) by auto
  have "r = NotConnected"
    if far: "\<forall>k \<le> cap. identifier target \<notin> set (layer ?g k (identifier start))"
  proof (cases r)
    case NotConnected
    then show ?thesis .
  next
    case (Path p)
    show ?thesis
    proof (cases "identifier start = identifier target")
      case True
      with far[rule_format, of 0] show ?thesis by simp
    next
      case False
      with rm(3) Path have "shortest ?g (identifier start) (identifier target) p"
        "length p - 1 \<le> m" by auto
      then have "identifier target \<in> set (layer ?g (length p - 1) (identifier start))"
        "length p - 1 \<le> cap" using rm(2) by (auto simp: shortest_def)
      with far show ?thesis by blast
    qed
  qed
  with rm(1,2) f hops show ?thesis by blast
qed

theorem search_is_bounded_witness:
  "search demo_wiki True 2 demo_A demo_D = Some (NotConnected, 2)
   \<and> find_short_path demo_wiki True 2 demo_A demo_D = Some NotConnected
   \<and> search demo_wiki True 10 demo_A demo_D = Some (Path [''A'', ''C'', ''D''], 3)
   \<and> ''D'' \<notin> set (layer (expand demo_wiki True) 0 ''A'')
   \<and> ''D'' \<notin> set (layer (expand demo_wiki True) 1 ''A'')
   \<and> ''D'' \<in> set (layer (expand demo_wiki True) 2 ''A'')
   \<and> find_short_path demo_wiki True 1 demo_A demo_D = Some NotConnected"
proof -
  have far: "\<forall>k \<le> 1. identifier demo_D
                      \<notin> set (layer (expand demo_wiki True) k (identifier demo_A))"
  proof (intro allI impI)
    fix k :: nat assume "k \<le> 1"
    then have "k = 0 \<or> k = Suc 0" by auto
    then show "identifier demo_D \<notin> set (layer (expand demo_wiki True) k (identifier demo_A))"
      by (auto simp: search_defs)
  qed
  from search_is_bounded[of demo_wiki True 1 demo_A demo_D] far
  have 1: "find_short_path demo_wiki True 1 demo_A demo_D = Some NotConnected" by blast
  from search_is_bounded[of demo_wiki True 2 demo_A demo_D] demo_search_capped
  have 2: "find_short_path demo_wiki True 2 demo_A demo_D = Some NotConnected" by auto
  have lev: "''D'' \<notin> set (layer (expand demo_wiki True) 0 ''A'')"
    "''D'' \<notin> set (layer (expand demo_wiki True) 1 ''A'')"
    "''D'' \<in> set (layer (expand demo_wiki True) 2 ''A'')"
    by (simp_all add: search_defs eval_nat_numeral)
  show ?thesis using 1 2 lev demo_search_capped demo_search_hard by simp
qed

text \<open>
  C1. A path that the search returns is a shortest one. Its number of hops, one less
  than its number of titles, is the level at which the reference search, which goes
  through the levels of the same graph one after the other, first meets the target.
  When start and target differ the path is a path of the graph from the start to the
  target, and no level before its last holds the target. For a pair that is connected
  the search returns such a path unless it has used up the effort cap.
\<close>

theorem returned_path_is_shortest:
  "(find_short_path resolve hard cap start target = Some (Path p) \<longrightarrow>
      p \<noteq> []
    \<and> (\<forall>fuel \<ge> length p.
          reference_bfs (expand resolve hard) (identifier start) (identifier target) 0 fuel
            = Some (length p - 1))
    \<and> (identifier start \<noteq> identifier target \<longrightarrow>
          shortest (expand resolve hard) (identifier start) (identifier target) p)
    \<and> (identifier start = identifier target \<longrightarrow> p = [title start]))
   \<and> ((\<exists>k. identifier target \<in> set (layer (expand resolve hard) k (identifier start))) \<longrightarrow>
        (\<exists>q. find_short_path resolve hard cap start target = Some (Path q))
      \<or> search resolve hard cap start target = Some (NotConnected, cap))"
proof -
  let ?g = "expand resolve hard"
  let ?a = "identifier start"
  let ?b = "identifier target"
  from search_cases[of resolve hard cap start target] obtain r m where
    rm: "search resolve hard cap start target = Some (r, m)" "m \<le> cap"
      "\<forall>p. r = Path p \<longrightarrow>
           p \<noteq> [] \<and> length p \<le> m + 1
         \<and> (?a \<noteq> ?b \<longrightarrow> shortest ?g ?a ?b p)
         \<and> (?a = ?b \<longrightarrow> p = [title start] \<and> m = 0)"
      "r = NotConnected \<longrightarrow> ?a \<noteq> ?b \<and> (m < cap \<longrightarrow> (\<forall>k. ?b \<notin> set (layer ?g k ?a)))"
    by blast
  from rm(1) have f: "find_short_path resolve hard cap start target = Some r"
    by (simp add: find_short_path_def)
  have 1: "p \<noteq> []
    \<and> (\<forall>fuel \<ge> length p. reference_bfs ?g ?a ?b 0 fuel = Some (length p - 1))
    \<and> (?a \<noteq> ?b \<longrightarrow> shortest ?g ?a ?b p)
    \<and> (?a = ?b \<longrightarrow> p = [title start])"
    if "find_short_path resolve hard cap start target = Some (Path p)"
  proof -
    from that f have r: "r = Path p" by simp
    with rm(3) have p: "p \<noteq> []" "?a \<noteq> ?b \<longrightarrow> shortest ?g ?a ?b p"
      "?a = ?b \<longrightarrow> p = [title start]" by auto
    have lev: "?b \<in> set (layer ?g (0 + (length p - 1)) ?a)
        \<and> (\<forall>j < length p - 1. ?b \<notin> set (layer ?g (0 + j) ?a))"
    proof (cases "?a = ?b")
      case True
      with p(3) show ?thesis by simp
    next
      case False
      with p(2) show ?thesis by (simp add: shortest_def)
    qed
    have "reference_bfs ?g ?a ?b 0 fuel = Some (length p - 1)" if "length p \<le> fuel" for fuel
    proof -
      from that p(1) have "length p - 1 < fuel" by (cases p) auto
      from reference_bfs_finds[of ?b ?g 0 "length p - 1" ?a fuel] lev this
      show ?thesis by simp
    qed
    with p show ?thesis by blast
  qed
  have 2: "(\<exists>q. find_short_path resolve hard cap start target = Some (Path q))
      \<or> search resolve hard cap start target = Some (NotConnected, cap)"
    if "\<exists>k. ?b \<in> set (layer ?g k ?a)"
  proof (cases r)
    case (Path q)
    with f show ?thesis by blast
  next
    case NotConnected
    with rm(4) that have "\<not> m < cap" by blast
    with rm(2) have "m = cap" by simp
    with rm(1) NotConnected show ?thesis by simp
  qed
  show ?thesis by (intro conjI; (rule impI, (erule 1 | erule 2)))
qed

theorem returned_path_is_shortest_witness:
  "find_short_path demo_wiki True 10 demo_A demo_D = Some (Path [''A'', ''C'', ''D''])
   \<and> reference_bfs (expand demo_wiki True) ''A'' ''D'' 0 3 = Some 2
   \<and> shortest (expand demo_wiki True) ''A'' ''D'' [''A'', ''C'', ''D'']
   \<and> find_short_path demo_wiki False 10 demo_A demo_D = Some (Path [''A'', ''D''])
   \<and> reference_bfs (expand demo_wiki False) ''A'' ''D'' 0 2 = Some 1
   \<and> ''D'' \<in> set (layer (expand demo_wiki True) 2 ''A'')
   \<and> search demo_wiki True 2 demo_A demo_D = Some (NotConnected, 2)
   \<and> find_short_path demo_wiki True 3 demo_A demo_D = Some (Path [''A'', ''C'', ''D''])"
proof -
  have h: "find_short_path demo_wiki True 10 demo_A demo_D = Some (Path [''A'', ''C'', ''D''])"
    using demo_search_hard by (simp add: find_short_path_def)
  have n: "find_short_path demo_wiki False 10 demo_A demo_D = Some (Path [''A'', ''D''])"
    using demo_search_normal by (simp add: find_short_path_def)
  have i: "identifier demo_A = ''A''" "identifier demo_D = ''D''"
    by (simp_all add: demo_A_def demo_D_def demo_wiki_page_def)
  from returned_path_is_shortest[of demo_wiki True 10 demo_A demo_D "[''A'', ''C'', ''D'']"] h i
  have 1: "reference_bfs (expand demo_wiki True) ''A'' ''D'' 0 3 = Some 2"
    "shortest (expand demo_wiki True) ''A'' ''D'' [''A'', ''C'', ''D'']"
    by simp_all
  from returned_path_is_shortest[of demo_wiki False 10 demo_A demo_D "[''A'', ''D'']"] n i
  have 2: "reference_bfs (expand demo_wiki False) ''A'' ''D'' 0 2 = Some 1"
    by simp
  have lev: "''D'' \<in> set (layer (expand demo_wiki True) 2 ''A'')"
    by (simp add: search_defs eval_nat_numeral)
  have c3: "find_short_path demo_wiki True 3 demo_A demo_D = Some (Path [''A'', ''C'', ''D''])"
    by (simp add: search_defs)
  from lev i have "\<exists>k. identifier demo_D
                    \<in> set (layer (expand demo_wiki True) k (identifier demo_A))"
    by (intro exI[of _ 2]) simp
  with returned_path_is_shortest[of demo_wiki True 2 demo_A demo_D "[]"]
  have 3: "(\<exists>q. find_short_path demo_wiki True 2 demo_A demo_D = Some (Path q))
      \<or> search demo_wiki True 2 demo_A demo_D = Some (NotConnected, 2)"
    by blast
  with demo_search_capped have 4: "search demo_wiki True 2 demo_A demo_D = Some (NotConnected, 2)"
    by simp
  show ?thesis using h n 1 2 lev 4 c3 by simp
qed


end
